theory Spec2Isabelle
  imports Main "HOL-Library.Signed_Division"
begin

section \<open>Strings (\<open>str_t\<close>)\<close>

text \<open>
  \<open>typedef char* str_t\<close>: a pointer that is either \<open>NULL\<close> or the address of a byte
  buffer ended by a NUL byte. The model writes \<open>None\<close> for \<open>NULL\<close> and \<open>Some s\<close> for a
  buffer whose bytes, before the closing NUL, are \<open>s\<close>. The C library reads such a buffer
  up to its first NUL byte; \<open>cstr\<close> is that prefix.
\<close>

type_synonym str_t = "string option"

abbreviation NUL :: char where
  "NUL \<equiv> CHR 0x00"

definition cstr :: "string \<Rightarrow> string" where
  "cstr s = takeWhile (\<lambda>c. c \<noteq> NUL) s"

text \<open>\<open>strlen\<close> of the C library: the number of bytes before the first NUL.\<close>

definition strlen :: "string \<Rightarrow> int" where
  "strlen s = int (length (cstr s))"

text \<open>
  \<open>strcmp\<close> of the C library compares the two buffers byte by byte, as unsigned
  bytes, up to the first difference or the closing NUL. The C standard fixes the sign of
  the result only; the definition returns the difference of the two deciding bytes, as
  the reference implementations do, and every theorem below uses its sign alone.
\<close>

fun strcmp :: "string \<Rightarrow> string \<Rightarrow> int" where
  "strcmp [] [] = 0"
| "strcmp [] (y # ys) = - of_char y"
| "strcmp (x # xs) [] = of_char x"
| "strcmp (x # xs) (y # ys) =
     (if x = y then (if x = NUL then 0 else strcmp xs ys)
      else of_char x - of_char y)"

definition str_len :: "str_t \<Rightarrow> int" where
  "str_len str1 = (case str1 of None \<Rightarrow> 0 | Some s \<Rightarrow> strlen s)"

definition str_dup :: "str_t \<Rightarrow> str_t" where
  "str_dup str1 = (case str1 of None \<Rightarrow> None | Some s \<Rightarrow> Some (cstr s))"

definition str_cmp :: "str_t \<Rightarrow> str_t \<Rightarrow> int" where
  "str_cmp str1 str2 =
     (if str1 = None \<or> str2 = None then
        (if str1 \<noteq> None \<and> str2 = None then - 1
         else if str1 = None \<and> str2 \<noteq> None then 1
         else 0)
      else strcmp (the str1) (the str2))"

definition str_equal :: "str_t \<Rightarrow> str_t \<Rightarrow> bool" where
  "str_equal str1 str2 = (str_cmp str1 str2 = 0)"

text \<open>\<open>str_sets(&self, from)\<close>: a \<open>NULL\<close> argument leaves the target as it is.\<close>

definition str_sets :: "str_t \<Rightarrow> str_t \<Rightarrow> str_t" where
  "str_sets self from = (if from = None then self else from)"

section \<open>Containers\<close>

text \<open>
  A list struct \<open>{ ssize_t size; T* data; }\<close> is the list of its \<open>size\<close> elements.
  The four dictionary entry structs pair a \<open>key\<close> with a value of their own type; the
  field \<open>value\<close> is written \<open>val\<close>. A dictionary that holds no array
  (\<open>data == NULL\<close>) has size 0.
\<close>

type_synonym str_list_t = "str_t list"

record 'v dict_entry =
  key :: str_t
  val :: 'v

type_synonym 'v dict_t = "'v dict_entry list"
type_synonym str_dict_t = "str_t dict_t"
type_synonym str_list_dict_t = "str_list_t dict_t"
type_synonym str_list_dict_dict_t = "str_list_dict_t dict_t"

text \<open>
  \<open>void*\<close> values of a \<open>ptr_dict_t\<close>: \<open>None\<close> is \<open>NULL\<close>. The field \<open>free\<close> of
  \<open>ptr_dict_t\<close> is called by \<open>ptr_dict_null\<close> only and is left out.
\<close>

type_synonym 'p ptr_dict_t = "'p option dict_t"

text \<open>
  What a run can end in instead of a value: a loop that does not return (or reads outside
  its array), a \<open>NULL\<close> pointer followed, an object used after \<open>free\<close>, a buffer
  read where nothing was ever written.
\<close>

datatype error = No_Return | Null_Deref | Use_After_Free | Uninitialized_Read

text \<open>What a pointer to a heap object finds there.\<close>

datatype 'a obj = Live 'a | Freed

section \<open>Binary search\<close>

text \<open>
  The loop of \<open>ptr_dict_find\<close>, which \<open>ptr_list_dict_find\<close> repeats word for word.
  \<open>while(true)\<close> has no exit of its own, so the loop is a partial function; \<open>None\<close> is
  a run that returns nothing, and a probe outside the array is counted as such.
  \<open>ssize_t\<close> division truncates (\<open>sdiv\<close>); the indices stay between 0 and the size,
  so \<open>int\<close> stands for \<open>ssize_t\<close> without wrap-around.
\<close>

partial_function (option) find_loop ::
  "'v dict_t \<Rightarrow> str_t \<Rightarrow> int \<Rightarrow> int \<Rightarrow> int \<Rightarrow> int option" where
  "find_loop dat k a c e =
     (if c < 0 \<or> int (length dat) \<le> c then None
      else
       (let comp = str_cmp k (key (dat ! nat c)) in
        if comp = 0 then Some c
        else if comp < 0 then
          (let b = a + (c - a) sdiv 2;
               b = (if b = c then b - 1 else b)
           in if b < a then Some (- 1) else find_loop dat k a b c)
        else
          (let d = c + (e - c) sdiv 2;
               d = (if d = c then d + 1 else d)
           in if d \<ge> e then Some (- 1) else find_loop dat k c d e)))"

declare find_loop.simps [code]

definition ptr_dict_find :: "'v dict_t \<Rightarrow> str_t \<Rightarrow> int option" where
  "ptr_dict_find self k =
     (if self = [] then Some (- 1)
      else find_loop self k 0 (int (length self) sdiv 2) (int (length self)))"

definition ptr_list_dict_find :: "'v dict_t \<Rightarrow> str_t \<Rightarrow> int option" where
  "ptr_list_dict_find self k =
     (if self = [] then Some (- 1)
      else find_loop self k 0 (int (length self) sdiv 2) (int (length self)))"

text \<open>The loop of \<open>ptr_dict_find_pos\<close> and, word for word, of \<open>ptr_list_dict_find_pos\<close>.\<close>

partial_function (option) find_pos_loop ::
  "'v dict_t \<Rightarrow> str_t \<Rightarrow> int \<Rightarrow> int \<Rightarrow> int \<Rightarrow> int option" where
  "find_pos_loop dat k a c e =
     (if c < 0 \<or> int (length dat) \<le> c then None
      else
       (let comp = str_cmp k (key (dat ! nat c)) in
        if comp = 0 then Some c
        else if comp < 0 then
          (let b = a + (c - a) sdiv 2;
               b = (if b = c then b - 1 else b)
           in if b < a then Some c else find_pos_loop dat k a b c)
        else
          (let d = c + (e - c) sdiv 2;
               d = (if d = c then d + 1 else d)
           in if d \<ge> e then Some (c + 1) else find_pos_loop dat k c d e)))"

declare find_pos_loop.simps [code]

definition ptr_dict_find_pos :: "'v dict_t \<Rightarrow> str_t \<Rightarrow> int option" where
  "ptr_dict_find_pos self k =
     (if self = [] then Some 0
      else find_pos_loop self k 0 (int (length self) sdiv 2) (int (length self)))"

definition ptr_list_dict_find_pos :: "'v dict_t \<Rightarrow> str_t \<Rightarrow> int option" where
  "ptr_list_dict_find_pos self k =
     (if self = [] then Some 0
      else find_pos_loop self k 0 (int (length self) sdiv 2) (int (length self)))"

text \<open>The typed entry points cast the dictionary and call the generic search.\<close>

definition str_dict_find :: "str_dict_t \<Rightarrow> str_t \<Rightarrow> int option" where
  "str_dict_find self k = ptr_dict_find self k"

definition str_dict_find_pos :: "str_dict_t \<Rightarrow> str_t \<Rightarrow> int option" where
  "str_dict_find_pos self k = ptr_dict_find_pos self k"

definition str_list_dict_find :: "str_list_dict_t \<Rightarrow> str_t \<Rightarrow> int option" where
  "str_list_dict_find self k = ptr_list_dict_find self k"

definition str_list_dict_find_pos :: "str_list_dict_t \<Rightarrow> str_t \<Rightarrow> int option" where
  "str_list_dict_find_pos self k = ptr_list_dict_find_pos self k"

definition str_list_dict_dict_find :: "str_list_dict_dict_t \<Rightarrow> str_t \<Rightarrow> int option" where
  "str_list_dict_dict_find self k = ptr_list_dict_find self k"

definition str_list_dict_dict_find_pos :: "str_list_dict_dict_t \<Rightarrow> str_t \<Rightarrow> int option" where
  "str_list_dict_dict_find_pos self k = ptr_list_dict_find_pos self k"

text \<open>
  The order the search relies on: neighbouring keys compare strictly ascending under
  \<open>str_cmp\<close>.
\<close>

fun ascending :: "str_t list \<Rightarrow> bool" where
  "ascending [] = True"
| "ascending [x] = True"
| "ascending (x # y # ys) = (str_cmp x y < 0 \<and> ascending (y # ys))"

definition keys_of :: "'v dict_t \<Rightarrow> str_t list" where
  "keys_of self = map key self"

text \<open>
  The reference the searches are compared with: the first position, from the left, whose
  key compares equal to \<open>k\<close> (or \<open>- 1\<close>), and the number of leading keys that \<open>k\<close> is
  greater than.
\<close>

fun linear_find :: "str_t list \<Rightarrow> str_t \<Rightarrow> int" where
  "linear_find [] k = - 1"
| "linear_find (x # xs) k =
     (if str_cmp k x = 0 then 0
      else (let r = linear_find xs k in if r < 0 then - 1 else r + 1))"

definition insertion_index :: "str_t list \<Rightarrow> str_t \<Rightarrow> int" where
  "insertion_index ks k = int (length (takeWhile (\<lambda>x. str_cmp k x > 0) ks))"

section \<open>Upsert\<close>

text \<open>
  \<open>for (i = size-1; i > pos; --i) data[i] = data[i-1];\<close> run from \<open>i\<close> downwards
  on the array \<open>xs\<close>.
\<close>

fun shift_up :: "'a list \<Rightarrow> nat \<Rightarrow> nat \<Rightarrow> 'a list" where
  "shift_up xs pos i =
     (if pos < i then shift_up (xs[i := xs ! (i - 1)]) pos (i - 1) else xs)"

declare shift_up.simps [simp del]

text \<open>
  \<open>str_dict_adds\<close>. \<open>realloc\<close> adds one slot at the end; the loop or the store at
  \<open>pos\<close> writes it before anything reads it, so the model starts it with the new
  entry.
\<close>

definition str_dict_adds :: "str_dict_t \<Rightarrow> str_t \<Rightarrow> str_t \<Rightarrow> error + str_dict_t" where
  "str_dict_adds self k v =
     (if k = None then Inr self
      else
       (case str_dict_find_pos self k of
          None \<Rightarrow> Inl No_Return
        | Some pos \<Rightarrow>
            if pos < int (length self) \<and> str_equal (key (self ! nat pos)) k
            then Inr (self[nat pos :=
                   (self ! nat pos)\<lparr>val := str_sets (val (self ! nat pos)) v\<rparr>])
            else
             (let new = \<lparr>key = str_dup k, val = v\<rparr>
              in Inr ((shift_up (self @ [new]) (nat pos) (length self))[nat pos := new]))))"

definition str_dict_add :: "str_dict_t \<Rightarrow> str_t \<Rightarrow> str_t \<Rightarrow> error + str_dict_t" where
  "str_dict_add self k v = str_dict_adds self k (str_dup v)"

text \<open>
  Lists handed over by pointer: \<open>None\<close> is a \<open>NULL\<close> pointer. \<open>str_list_adds_all\<close>
  returns at once on \<open>NULL\<close> or on an empty list, and otherwise moves the elements
  behind those of \<open>self\<close>.
\<close>

definition str_list_adds :: "str_list_t \<Rightarrow> str_t \<Rightarrow> str_list_t" where
  "str_list_adds self v = self @ [v]"

definition str_list_adds_all :: "str_list_t \<Rightarrow> str_list_t option \<Rightarrow> str_list_t" where
  "str_list_adds_all self v =
     (case v of
        None \<Rightarrow> self
      | Some vs \<Rightarrow> if length vs = 0 then self else self @ vs)"

definition str_list_dup :: "str_list_t option \<Rightarrow> str_list_t option" where
  "str_list_dup self = (case self of None \<Rightarrow> None | Some l \<Rightarrow> Some (map str_dup l))"

text \<open>
  \<open>str_list_dict_adds\<close>. The two checks after the insertion only write to the log and
  are left out. A new key stores \<open>value->size\<close> and \<open>value->data\<close>, which follows the
  pointer \<open>value\<close>.
\<close>

definition str_list_dict_adds ::
  "str_list_dict_t \<Rightarrow> str_t \<Rightarrow> str_list_t option \<Rightarrow> error + str_list_dict_t" where
  "str_list_dict_adds self k v =
     (if k = None then Inr self
      else
       (case str_list_dict_find_pos self k of
          None \<Rightarrow> Inl No_Return
        | Some pos \<Rightarrow>
            if pos < int (length self) \<and> str_equal (key (self ! nat pos)) k
            then Inr (self[nat pos :=
                   (self ! nat pos)\<lparr>val := str_list_adds_all (val (self ! nat pos)) v\<rparr>])
            else
             (case v of
                None \<Rightarrow> Inl Null_Deref
              | Some vs \<Rightarrow>
                 (let new = \<lparr>key = str_dup k, val = vs\<rparr>
                  in Inr ((shift_up (self @ [new]) (nat pos) (length self))[nat pos := new])))))"

definition str_list_dict_add ::
  "str_list_dict_t \<Rightarrow> str_t \<Rightarrow> str_list_t option \<Rightarrow> error + str_list_dict_t" where
  "str_list_dict_add self k v = str_list_dict_adds self k (str_list_dup v)"

text \<open>
  \<open>str_list_dict_sets(self, from)\<close> empties \<open>self\<close> and, unless \<open>from\<close> is \<open>NULL\<close>,
  takes over the entries of \<open>from\<close>.
\<close>

definition str_list_dict_sets :: "str_list_dict_t \<Rightarrow> str_list_dict_t option \<Rightarrow> str_list_dict_t" where
  "str_list_dict_sets self from = (case from of None \<Rightarrow> [] | Some d \<Rightarrow> d)"

definition str_list_dict_dup :: "str_list_dict_t option \<Rightarrow> str_list_dict_t option" where
  "str_list_dict_dup self =
     (case self of
        None \<Rightarrow> None
      | Some d \<Rightarrow> Some (map (\<lambda>e. \<lparr>key = str_dup (key e), val = map str_dup (val e)\<rparr>) d))"

definition str_list_dict_dict_adds ::
  "str_list_dict_dict_t \<Rightarrow> str_t \<Rightarrow> str_list_dict_t option \<Rightarrow> error + str_list_dict_dict_t" where
  "str_list_dict_dict_adds self k v =
     (if k = None then Inr self
      else
       (case str_list_dict_dict_find_pos self k of
          None \<Rightarrow> Inl No_Return
        | Some pos \<Rightarrow>
            if pos < int (length self) \<and> str_equal (key (self ! nat pos)) k
            then Inr (self[nat pos :=
                   (self ! nat pos)\<lparr>val := str_list_dict_sets (val (self ! nat pos)) v\<rparr>])
            else
             (case v of
                None \<Rightarrow> Inl Null_Deref
              | Some d \<Rightarrow>
                 (let new = \<lparr>key = str_dup k, val = d\<rparr>
                  in Inr ((shift_up (self @ [new]) (nat pos) (length self))[nat pos := new])))))"

definition str_list_dict_dict_add ::
  "str_list_dict_dict_t \<Rightarrow> str_t \<Rightarrow> str_list_dict_t option \<Rightarrow> error + str_list_dict_dict_t" where
  "str_list_dict_dict_add self k v = str_list_dict_dict_adds self k (str_list_dict_dup v)"

text \<open>
  \<open>ptr_dict_adds\<close> builds a new array: the entries before \<open>pos\<close>, the new entry, the
  entries from \<open>pos\<close> on. It does not look at the key found at \<open>pos\<close>.
\<close>

definition ptr_dict_adds :: "'p ptr_dict_t \<Rightarrow> str_t \<Rightarrow> 'p option \<Rightarrow> error + 'p ptr_dict_t" where
  "ptr_dict_adds self k v =
     (if k = None then Inr self
      else
       (case ptr_dict_find_pos self k of
          None \<Rightarrow> Inl No_Return
        | Some pos \<Rightarrow>
            Inr (map (\<lambda>i. self ! i) [0 ..< nat pos]
                 @ [\<lparr>key = str_dup k, val = v\<rparr>]
                 @ map (\<lambda>i. self ! i) [nat pos ..< length self])))"

definition ptr_dict_add :: "string ptr_dict_t \<Rightarrow> str_t \<Rightarrow> str_t \<Rightarrow> error + string ptr_dict_t" where
  "ptr_dict_add self k v = ptr_dict_adds self k (str_dup v)"

section \<open>Remove\<close>

text \<open>
  \<open>str_dict_sets(self, from)\<close> empties \<open>self\<close>; unless \<open>from\<close> is \<open>NULL\<close> it moves the
  entries of \<open>*from\<close> into \<open>self\<close>, empties \<open>*from\<close> and calls \<open>free(from)\<close>. The
  result is the new \<open>self\<close> and what \<open>from\<close> points to afterwards.
\<close>

definition str_dict_sets ::
  "str_dict_t \<Rightarrow> str_dict_t obj option \<Rightarrow> error + (str_dict_t \<times> str_dict_t obj option)" where
  "str_dict_sets self from =
     (case from of
        None \<Rightarrow> Inr ([], None)
      | Some Freed \<Rightarrow> Inl Use_After_Free
      | Some (Live d) \<Rightarrow> Inr (d, Some Freed))"

text \<open>
  \<open>str_dict_del(self, key)\<close>. With the key found it calls \<open>str_dict_sets(&old, self)\<close>
  and then assigns \<open>self->size\<close> and \<open>self->data\<close> and fills the new array from \<open>old\<close>
  without the entry at \<open>pos\<close>.
\<close>

definition str_dict_del :: "str_dict_t obj \<Rightarrow> str_t \<Rightarrow> error + str_dict_t obj" where
  "str_dict_del self k =
     (case self of
        Freed \<Rightarrow> Inl Use_After_Free
      | Live d \<Rightarrow>
         (case str_dict_find d k of
            None \<Rightarrow> Inl No_Return
          | Some pos \<Rightarrow>
              if pos \<ge> 0 then
               (case str_dict_sets [] (Some self) of
                  Inl err \<Rightarrow> Inl err
                | Inr (old, self') \<Rightarrow>
                   (case self' of
                      None \<Rightarrow> Inl Null_Deref
                    | Some Freed \<Rightarrow> Inl Use_After_Free
                    | Some (Live _) \<Rightarrow>
                        Inr (Live (map (\<lambda>i. old ! i) [0 ..< nat pos]
                                   @ map (\<lambda>i. old ! (i + 1)) [nat pos ..< length old - 1]))))
              else Inr self))"

section \<open>Cut, split, join\<close>

text \<open>
  \<open>str_cut\<close>: \<open>memcpy(res, self+a, s)\<close> reads \<open>s\<close> bytes of the buffer of \<open>self\<close>,
  closing NUL included, \<open>res[s]\<close> is set to NUL, and the result is the string \<open>res\<close>
  holds.
\<close>

definition str_cut :: "str_t \<Rightarrow> int \<Rightarrow> int \<Rightarrow> str_t" where
  "str_cut self a b =
     (case self of
        None \<Rightarrow> None
      | Some t \<Rightarrow>
         (let size = str_len self;
              a = (if a < 0 then size + a else a);
              b = (if b < 0 then size + b else b)
          in if a < 0 \<or> b < 0 \<or> a \<ge> size \<or> b < a then str_dup (Some [])
             else
              (let b = (if b \<ge> size then size + 1 else b);
                   s = b - a
               in Some (cstr (take (nat s) (drop (nat a) (t @ [NUL])))))))"

text \<open>The two inner scans of \<open>str_split\<close>, then its outer loop.\<close>

function skip_delim :: "string \<Rightarrow> char \<Rightarrow> nat \<Rightarrow> nat \<Rightarrow> nat" where
  "skip_delim text delim x n =
     (if x < n then (if text ! x \<noteq> delim then x else skip_delim text delim (x + 1) n)
      else x)"
  by pat_completeness auto
termination
  by (relation "measure (\<lambda>(text, delim, x, n). n - x)") auto

declare skip_delim.simps [simp del]

function scan_token :: "string \<Rightarrow> char \<Rightarrow> nat \<Rightarrow> nat \<Rightarrow> nat" where
  "scan_token text delim x n =
     (if x < n then (if text ! x = delim then x else scan_token text delim (x + 1) n)
      else x)"
  by pat_completeness auto
termination
  by (relation "measure (\<lambda>(text, delim, x, n). n - x)") auto

declare scan_token.simps [simp del]

function split_loop :: "string \<Rightarrow> char \<Rightarrow> nat \<Rightarrow> nat \<Rightarrow> str_list_t \<Rightarrow> str_list_t" where
  "split_loop text delim x n res =
     (if x < n then
       (let x1 = skip_delim text delim x n in
        if x1 = n then res
        else
         (let a = x1;
              x2 = scan_token text delim x1 n
          in split_loop text delim (x2 + 1) n
               (str_list_adds res (str_cut (Some text) (int a) (int x2)))))
      else res)"
  by pat_completeness auto
termination
proof (relation "measure (\<lambda>(text, delim, x, n, res). n - x)")
  show "wf (measure (\<lambda>(text, delim, x, n, res). n - x))"
    by simp
next
  fix t :: string and d :: char and x n :: nat and res :: str_list_t and x1 a x2 :: nat
  assume "x < n" and x1: "x1 = skip_delim t d x n" and "x1 \<noteq> n" and "a = x1"
    and x2: "x2 = scan_token t d x1 n"
  have skip: "y \<le> skip_delim u c y m" for u c y m
    by (induction u c y m rule: skip_delim.induct) (subst skip_delim.simps, auto)
  have scan: "y \<le> scan_token u c y m" for u c y m
    by (induction u c y m rule: scan_token.induct) (subst scan_token.simps, auto)
  have "x \<le> x2"
    using skip[of x t d n] scan[of x1 t d n] x1 x2 by simp
  then show "((t, d, x2 + 1, n, str_list_adds res (str_cut (Some t) (int a) (int x2))),
              (t, d, x, n, res)) \<in> measure (\<lambda>(text, delim, x, n, res). n - x)"
    using \<open>x < n\<close> by simp
qed

declare split_loop.simps [simp del]

definition str_split :: "str_t \<Rightarrow> char \<Rightarrow> str_list_t" where
  "str_split text delim =
     split_loop (case text of None \<Rightarrow> [] | Some t \<Rightarrow> t) delim 0 (nat (str_len text)) []"

text \<open>
  A \<open>malloc\<close>ed byte array: \<open>None\<close> is a byte that nothing has written yet.
  \<open>strcpy(into + p, s)\<close> writes the bytes of \<open>s\<close> and its closing NUL from offset \<open>p\<close>
  on; \<open>str_cpy\<close> does nothing for a \<open>NULL\<close> source. \<open>read_str\<close> is the string a reader
  of the array finds: the bytes up to the first NUL.
\<close>

type_synonym buf = "char option list"

definition malloc :: "nat \<Rightarrow> buf" where
  "malloc n = replicate n None"

definition strcpy :: "buf \<Rightarrow> nat \<Rightarrow> string \<Rightarrow> buf" where
  "strcpy into p s =
     (let bytes = map Some (cstr s @ [NUL])
      in take p into @ bytes @ drop (p + length bytes) into)"

definition str_cpy :: "buf \<Rightarrow> nat \<Rightarrow> str_t \<Rightarrow> buf" where
  "str_cpy into p str1 = (case str1 of None \<Rightarrow> into | Some s \<Rightarrow> strcpy into p s)"

fun read_str :: "buf \<Rightarrow> error + string" where
  "read_str [] = Inl Uninitialized_Read"
| "read_str (None # bs) = Inl Uninitialized_Read"
| "read_str (Some c # bs) =
     (if c = NUL then Inr []
      else (case read_str bs of Inl err \<Rightarrow> Inl err | Inr s \<Rightarrow> Inr (c # s)))"

text \<open>The second loop of \<open>str_copy_str_list\<close>, with the offset \<open>p\<close>.\<close>

fun copy_loop :: "buf \<Rightarrow> nat \<Rightarrow> str_list_t \<Rightarrow> buf" where
  "copy_loop b p [] = b"
| "copy_loop b p (e # es) = copy_loop (str_cpy b p e) (p + nat (str_len e)) es"

definition str_copy_str_list :: "str_list_t \<Rightarrow> error + str_t" where
  "str_copy_str_list from =
     (let size = sum_list (map (\<lambda>e. nat (str_len e)) from);
          b = copy_loop (malloc (size + 1)) 0 from
      in case read_str b of Inl err \<Rightarrow> Inl err | Inr s \<Rightarrow> Inr (Some s))"

text \<open>
  The loop of \<open>str_list_join\<close> fills \<open>join\<close>: \<open>acc\<close> is its first \<open>x\<close> slots, so \<open>if (x)\<close>
  asks whether \<open>acc\<close> is non-empty.
\<close>

fun join_loop :: "str_list_t \<Rightarrow> str_t \<Rightarrow> str_list_t \<Rightarrow> str_list_t" where
  "join_loop [] delim acc = acc"
| "join_loop (e # es) delim acc =
     (if e \<noteq> None
      then join_loop es delim ((if acc \<noteq> [] then acc @ [str_dup delim] else acc) @ [str_dup e])
      else join_loop es delim acc)"

definition str_list_join :: "str_list_t \<Rightarrow> str_t \<Rightarrow> error + str_t" where
  "str_list_join self delim = str_copy_str_list (join_loop self delim [])"

section \<open>What the searches are to return\<close>

text \<open>
  \<open>pos_ok dat k r\<close>: \<open>r\<close> is a position of the array or its size, \<open>k\<close> is greater
  than every key before \<open>r\<close> and greater than no key from \<open>r\<close> on.
  \<open>find_ok dat k r\<close>: \<open>r\<close> is the position of a key equal to \<open>k\<close>, or \<open>- 1\<close> when
  no key is equal to \<open>k\<close>.
\<close>

definition pos_ok :: "'v dict_t \<Rightarrow> str_t \<Rightarrow> int \<Rightarrow> bool" where
  "pos_ok dat k r \<longleftrightarrow>
     0 \<le> r \<and> r \<le> int (length dat) \<and>
     (\<forall>i. 0 \<le> i \<and> i < r \<longrightarrow> 0 < str_cmp k (key (dat ! nat i))) \<and>
     (\<forall>i. r \<le> i \<and> i < int (length dat) \<longrightarrow> str_cmp k (key (dat ! nat i)) \<le> 0)"

definition find_ok :: "'v dict_t \<Rightarrow> str_t \<Rightarrow> int \<Rightarrow> bool" where
  "find_ok dat k r \<longleftrightarrow>
     (0 \<le> r \<and> r < int (length dat) \<and> str_cmp k (key (dat ! nat r)) = 0 \<or>
      r = - 1 \<and> (\<forall>i. 0 \<le> i \<and> i < int (length dat) \<longrightarrow> str_cmp k (key (dat ! nat i)) \<noteq> 0))"

section \<open>What split and join are to return\<close>

text \<open>The non-empty maximal runs of bytes other than \<open>d\<close>, from left to right.\<close>

function tokens :: "char \<Rightarrow> string \<Rightarrow> string list" where
  "tokens d [] = []"
| "tokens d (c # cs) =
     (if c = d then tokens d cs
      else (c # takeWhile (\<lambda>x. x \<noteq> d) cs) # tokens d (dropWhile (\<lambda>x. x \<noteq> d) cs))"
  by pat_completeness auto
termination
  by (relation "measure (\<lambda>(d, s). length s)") (auto simp: length_dropWhile_le less_Suc_eq_le)

fun intercalate :: "string \<Rightarrow> string list \<Rightarrow> string" where
  "intercalate dl [] = []"
| "intercalate dl [t] = t"
| "intercalate dl (t # u # ts) = t @ dl @ intercalate dl (u # ts)"

text \<open>
  \<open>intercalate dl ts\<close> puts \<open>dl\<close> between neighbouring elements of \<open>ts\<close>. \<open>flat es\<close>
  is the bytes of the strings of \<open>es\<close> one after the other, \<open>NULL\<close> elements skipped.
  \<open>no_double d s\<close>: no two neighbouring bytes of \<open>s\<close> are both \<open>d\<close>.
\<close>

definition flat :: "str_list_t \<Rightarrow> string" where
  "flat es = concat (map (\<lambda>e. case e of None \<Rightarrow> [] | Some s \<Rightarrow> cstr s) es)"

fun no_double :: "char \<Rightarrow> string \<Rightarrow> bool" where
  "no_double d (x # y # zs) = (\<not> (x = d \<and> y = d) \<and> no_double d (y # zs))"
| "no_double d [x] = True"
| "no_double d [] = True"

section \<open>The order of \<open>str_cmp\<close>\<close>

lemma of_char_int_eq: "(of_char x :: int) = of_char y \<longleftrightarrow> x = y"
  by (metis of_char_eq_iff)

lemma of_char_int_ge: "0 \<le> (of_char x :: int)"
  by (metis of_nat_0_le_iff of_nat_of_char)

lemma of_char_int_0: "(of_char x :: int) = 0 \<longleftrightarrow> x = NUL"
  using of_char_int_eq[of x NUL] by simp

lemma of_char_int_le0: "(of_char x :: int) \<le> 0 \<longleftrightarrow> x = NUL"
  using of_char_int_0[of x] of_char_int_ge[of x] by auto

lemma strcmp_refl: "strcmp s s = 0"
  by (induction s) auto

lemma strcmp_sym: "strcmp t s = - strcmp s t"
  by (induction s t rule: strcmp.induct) auto

lemma strcmp_trans:
  "strcmp a b \<le> 0 \<Longrightarrow> strcmp b c \<le> 0 \<Longrightarrow>
   strcmp a c \<le> 0 \<and> (strcmp a c = 0 \<longrightarrow> strcmp a b = 0 \<and> strcmp b c = 0)"
proof (induction a arbitrary: b c)
  case Nil
  then show ?case
    by (cases b; cases c) (auto simp: of_char_int_0 of_char_int_le0 of_char_int_ge split: if_splits)
next
  case (Cons x xs)
  then show ?case
    by (cases b; cases c)
       (auto simp: of_char_int_0 of_char_int_le0 of_char_int_ge of_char_int_eq split: if_splits)
qed

lemma strcmp_cstr: "strcmp s t = 0 \<longleftrightarrow> cstr s = cstr t"
  by (induction s t rule: strcmp.induct) (auto simp: cstr_def of_char_int_0 of_char_int_eq)

lemma strcmp_lexord:
  "strcmp s t < 0 \<longleftrightarrow> (cstr s, cstr t) \<in> lexord {(a, b). (of_char a :: nat) < of_char b}"
proof (induction s t rule: strcmp.induct)
  case 1
  then show ?case by (simp add: cstr_def)
next
  case (2 y ys)
  then show ?case
    using of_char_int_ge[of y] of_char_int_0[of y] by (auto simp: cstr_def)
next
  case (3 x xs)
  then show ?case
    using of_char_int_ge[of x] by (auto simp: cstr_def)
next
  case (4 x xs y ys)
  have "(of_char x :: int) = int (of_char x)" "(of_char y :: int) = int (of_char y)"
    by (simp_all add: of_nat_of_char)
  then have lt: "(of_char x :: int) - of_char y < 0 \<longleftrightarrow> (of_char x :: nat) < of_char y"
    by linarith
  have z: "(of_char c :: nat) = 0 \<longleftrightarrow> c = NUL" for c
    using of_char_eq_iff[of c NUL, where ?'a = nat] by simp
  show ?case
  proof (cases "x = y")
    case True
    then show ?thesis using 4 by (auto simp: cstr_def)
  next
    case False
    then show ?thesis
      using lt z[of x] z[of y] by (auto simp: cstr_def)
  qed
qed

lemma str_cmp_refl: "str_cmp a a = 0"
  by (simp add: str_cmp_def strcmp_refl)

lemma str_cmp_sym: "str_cmp b a = - str_cmp a b"
  using strcmp_sym[of "the b" "the a"] by (auto simp: str_cmp_def)

lemma str_cmp_trans:
  "str_cmp a b \<le> 0 \<Longrightarrow> str_cmp b c \<le> 0 \<Longrightarrow>
   str_cmp a c \<le> 0 \<and> (str_cmp a c = 0 \<longrightarrow> str_cmp a b = 0 \<and> str_cmp b c = 0)"
  using strcmp_trans[of "the a" "the b" "the c"]
  by (auto simp: str_cmp_def split: if_splits)

lemma str_cmp_less_trans: "str_cmp a b < 0 \<Longrightarrow> str_cmp b c < 0 \<Longrightarrow> str_cmp a c < 0"
  using str_cmp_trans[of a b c] by force

lemma str_cmp_less_le_trans: "str_cmp a b < 0 \<Longrightarrow> str_cmp b c \<le> 0 \<Longrightarrow> str_cmp a c < 0"
  using str_cmp_trans[of a b c] by force

lemma str_cmp_le_less_trans: "str_cmp a b \<le> 0 \<Longrightarrow> str_cmp b c < 0 \<Longrightarrow> str_cmp a c < 0"
  using str_cmp_trans[of a b c] by force

lemma ascending_Cons: "ascending (x # xs) \<longleftrightarrow> (\<forall>y \<in> set xs. str_cmp x y < 0) \<and> ascending xs"
proof (induction xs arbitrary: x)
  case Nil
  then show ?case by simp
next
  case (Cons y ys)
  show ?case
    using Cons.IH[of y] str_cmp_less_trans[of x y] by auto
qed

lemma ascending_sorted_wrt: "ascending ks \<longleftrightarrow> sorted_wrt (\<lambda>x y. str_cmp x y < 0) ks"
  by (induction ks) (auto simp: ascending_Cons)

lemma ascending_nth:
  "ascending ks \<Longrightarrow> i < j \<Longrightarrow> j < length ks \<Longrightarrow> str_cmp (ks ! i) (ks ! j) < 0"
  by (simp add: ascending_sorted_wrt sorted_wrt_iff_nth_less)

section \<open>Correctness of the binary search\<close>

lemma sdiv2_nonneg: "0 \<le> x \<Longrightarrow> x sdiv 2 = x div (2::int)"
  by (simp add: signed_divide_int_def sgn_if)

lemma probe_right:
  assumes "ascending (keys_of dat)" "0 \<le> c" "c < j" "j < int (length dat)"
    and "str_cmp k (key (dat ! nat c)) \<le> 0"
  shows "str_cmp k (key (dat ! nat j)) < 0"
proof -
  have "str_cmp (keys_of dat ! nat c) (keys_of dat ! nat j) < 0"
    using assms by (intro ascending_nth) (auto simp: keys_of_def)
  then have "str_cmp (key (dat ! nat c)) (key (dat ! nat j)) < 0"
    using assms by (simp add: keys_of_def)
  with assms(5) show ?thesis
    by (rule str_cmp_le_less_trans)
qed

lemma probe_left:
  assumes "ascending (keys_of dat)" "0 \<le> i" "i < c" "c < int (length dat)"
    and "0 \<le> str_cmp k (key (dat ! nat c))"
  shows "0 < str_cmp k (key (dat ! nat i))"
proof -
  have "str_cmp (keys_of dat ! nat i) (keys_of dat ! nat c) < 0"
    using assms by (intro ascending_nth) (auto simp: keys_of_def)
  then have "str_cmp (key (dat ! nat i)) (key (dat ! nat c)) < 0"
    using assms by (simp add: keys_of_def)
  moreover have "str_cmp (key (dat ! nat c)) k \<le> 0"
    using assms(5) str_cmp_sym[of k "key (dat ! nat c)"] by simp
  ultimately have "str_cmp (key (dat ! nat i)) k < 0"
    by (rule str_cmp_less_le_trans)
  then show ?thesis
    using str_cmp_sym[of k "key (dat ! nat i)"] by simp
qed

lemma find_pos_loop_spec:
  assumes asc: "ascending (keys_of dat)"
  shows "0 \<le> a \<Longrightarrow> a \<le> c \<Longrightarrow> c < e \<Longrightarrow> e \<le> int (length dat) \<Longrightarrow>
     (\<forall>i. 0 \<le> i \<and> i < a \<longrightarrow> 0 < str_cmp k (key (dat ! nat i))) \<Longrightarrow>
     (\<forall>i. e \<le> i \<and> i < int (length dat) \<longrightarrow> str_cmp k (key (dat ! nat i)) < 0) \<Longrightarrow>
     \<exists>r. find_pos_loop dat k a c e = Some r \<and> pos_ok dat k r"
proof (induction "nat (2 * (e - a)) + (if c = a then 1 else 0)" arbitrary: a c e rule: less_induct)
  case less
  let ?n = "int (length dat)"
  let ?P = "\<lambda>i. str_cmp k (key (dat ! nat i))"
  have cn: "0 \<le> c" "c < ?n" using less.prems by auto
  consider (eq) "?P c = 0" | (lt) "?P c < 0" | (gt) "0 < ?P c" by linarith
  then show ?case
  proof cases
    case eq
    have "pos_ok dat k c"
      unfolding pos_ok_def
    proof (intro conjI allI impI)
      show "0 \<le> c" "c \<le> ?n" using cn by auto
    next
      fix i assume "0 \<le> i \<and> i < c"
      then show "0 < ?P i" using probe_left[OF asc, of i c k] cn eq by simp
    next
      fix i assume i: "c \<le> i \<and> i < ?n"
      show "?P i \<le> 0"
      proof (cases "i = c")
        case True then show ?thesis using eq by simp
      next
        case False
        then show ?thesis using probe_right[OF asc, of c i k] cn eq i by simp
      qed
    qed
    moreover have "find_pos_loop dat k a c e = Some c"
      using cn eq by (subst find_pos_loop.simps) simp
    ultimately show ?thesis by blast
  next
    case lt
    define b0 where "b0 = a + (c - a) sdiv 2"
    define b where "b = (if b0 = c then b0 - 1 else b0)"
    have b0: "b0 = a + (c - a) div 2"
      using less.prems by (simp add: b0_def sdiv2_nonneg)
    have unf: "find_pos_loop dat k a c e = (if b < a then Some c else find_pos_loop dat k a b c)"
      using cn lt by (subst find_pos_loop.simps) (simp add: Let_def b_def b0_def)
    have right: "\<forall>i. c \<le> i \<and> i < ?n \<longrightarrow> ?P i < 0"
    proof (intro allI impI)
      fix i assume i: "c \<le> i \<and> i < ?n"
      show "?P i < 0"
      proof (cases "i = c")
        case True then show ?thesis using lt by simp
      next
        case False
        then show ?thesis using probe_right[OF asc, of c i k] cn lt i by simp
      qed
    qed
    show ?thesis
    proof (cases "b < a")
      case True
      then have ca: "c = a" using b0 less.prems by (auto simp: b_def split: if_splits)
      have "pos_ok dat k c"
        unfolding pos_ok_def using cn less.prems(5) right ca by force
      then show ?thesis using unf True by simp
    next
      case False
      then have bc: "a \<le> b" "b < c" using b0 less.prems by (auto simp: b_def split: if_splits)
      have "\<exists>r. find_pos_loop dat k a b c = Some r \<and> pos_ok dat k r"
      proof (rule less.hyps)
        show "nat (2 * (c - a)) + (if b = a then 1 else 0) < nat (2 * (e - a)) + (if c = a then 1 else 0)"
          using less.prems bc by auto
      qed (use less.prems bc cn right in auto)
      then show ?thesis using unf False by simp
    qed
  next
    case gt
    define d0 where "d0 = c + (e - c) sdiv 2"
    define d where "d = (if d0 = c then d0 + 1 else d0)"
    have d0: "d0 = c + (e - c) div 2"
      using less.prems by (simp add: d0_def sdiv2_nonneg)
    have unf: "find_pos_loop dat k a c e = (if d \<ge> e then Some (c + 1) else find_pos_loop dat k c d e)"
      using cn gt by (subst find_pos_loop.simps) (simp add: Let_def d_def d0_def)
    have left: "\<forall>i. 0 \<le> i \<and> i \<le> c \<longrightarrow> 0 < ?P i"
    proof (intro allI impI)
      fix i assume i: "0 \<le> i \<and> i \<le> c"
      show "0 < ?P i"
      proof (cases "i = c")
        case True then show ?thesis using gt by simp
      next
        case False
        then show ?thesis using probe_left[OF asc, of i c k] cn gt i by simp
      qed
    qed
    show ?thesis
    proof (cases "d \<ge> e")
      case True
      then have ce: "e = c + 1" using d0 less.prems by (auto simp: d_def split: if_splits)
      have "pos_ok dat k (c + 1)"
        unfolding pos_ok_def using cn less.prems(6) left ce by force
      then show ?thesis using unf True by simp
    next
      case False
      then have dc: "c < d" "d < e" using d0 less.prems by (auto simp: d_def split: if_splits)
      have "\<exists>r. find_pos_loop dat k c d e = Some r \<and> pos_ok dat k r"
      proof (rule less.hyps)
        show "nat (2 * (e - c)) + (if d = c then 1 else 0) < nat (2 * (e - a)) + (if c = a then 1 else 0)"
          using less.prems dc by auto
      qed (use less.prems dc cn left in auto)
      then show ?thesis using unf False by simp
    qed
  qed
qed

lemma find_loop_spec:
  assumes asc: "ascending (keys_of dat)"
  shows "0 \<le> a \<Longrightarrow> a \<le> c \<Longrightarrow> c < e \<Longrightarrow> e \<le> int (length dat) \<Longrightarrow>
     (\<forall>i. 0 \<le> i \<and> i < a \<longrightarrow> 0 < str_cmp k (key (dat ! nat i))) \<Longrightarrow>
     (\<forall>i. e \<le> i \<and> i < int (length dat) \<longrightarrow> str_cmp k (key (dat ! nat i)) < 0) \<Longrightarrow>
     \<exists>r. find_loop dat k a c e = Some r \<and> find_ok dat k r"
proof (induction "nat (2 * (e - a)) + (if c = a then 1 else 0)" arbitrary: a c e rule: less_induct)
  case less
  let ?n = "int (length dat)"
  let ?P = "\<lambda>i. str_cmp k (key (dat ! nat i))"
  have cn: "0 \<le> c" "c < ?n" using less.prems by auto
  consider (eq) "?P c = 0" | (lt) "?P c < 0" | (gt) "0 < ?P c" by linarith
  then show ?case
  proof cases
    case eq
    have "find_ok dat k c"
      unfolding find_ok_def using cn eq by simp
    moreover have "find_loop dat k a c e = Some c"
      using cn eq by (subst find_loop.simps) simp
    ultimately show ?thesis by blast
  next
    case lt
    define b0 where "b0 = a + (c - a) sdiv 2"
    define b where "b = (if b0 = c then b0 - 1 else b0)"
    have b0: "b0 = a + (c - a) div 2"
      using less.prems by (simp add: b0_def sdiv2_nonneg)
    have unf: "find_loop dat k a c e = (if b < a then Some (- 1) else find_loop dat k a b c)"
      using cn lt by (subst find_loop.simps) (simp add: Let_def b_def b0_def)
    have right: "\<forall>i. c \<le> i \<and> i < ?n \<longrightarrow> ?P i < 0"
    proof (intro allI impI)
      fix i assume i: "c \<le> i \<and> i < ?n"
      show "?P i < 0"
      proof (cases "i = c")
        case True then show ?thesis using lt by simp
      next
        case False
        then show ?thesis using probe_right[OF asc, of c i k] cn lt i by simp
      qed
    qed
    show ?thesis
    proof (cases "b < a")
      case True
      then have ca: "c = a" using b0 less.prems by (auto simp: b_def split: if_splits)
      have "?P i \<noteq> 0" if "0 \<le> i \<and> i < ?n" for i
      proof (cases "i < a")
        case True then show ?thesis using less.prems(5)[THEN spec, of i] that by simp
      next
        case False then show ?thesis using right[THEN spec, of i] ca that by simp
      qed
      then have "find_ok dat k (- 1)"
        unfolding find_ok_def by simp
      then show ?thesis using unf True by simp
    next
      case False
      then have bc: "a \<le> b" "b < c" using b0 less.prems by (auto simp: b_def split: if_splits)
      have "\<exists>r. find_loop dat k a b c = Some r \<and> find_ok dat k r"
      proof (rule less.hyps)
        show "nat (2 * (c - a)) + (if b = a then 1 else 0) < nat (2 * (e - a)) + (if c = a then 1 else 0)"
          using less.prems bc by auto
      qed (use less.prems bc cn right in auto)
      then show ?thesis using unf False by simp
    qed
  next
    case gt
    define d0 where "d0 = c + (e - c) sdiv 2"
    define d where "d = (if d0 = c then d0 + 1 else d0)"
    have d0: "d0 = c + (e - c) div 2"
      using less.prems by (simp add: d0_def sdiv2_nonneg)
    have unf: "find_loop dat k a c e = (if d \<ge> e then Some (- 1) else find_loop dat k c d e)"
      using cn gt by (subst find_loop.simps) (simp add: Let_def d_def d0_def)
    have left: "\<forall>i. 0 \<le> i \<and> i \<le> c \<longrightarrow> 0 < ?P i"
    proof (intro allI impI)
      fix i assume i: "0 \<le> i \<and> i \<le> c"
      show "0 < ?P i"
      proof (cases "i = c")
        case True then show ?thesis using gt by simp
      next
        case False
        then show ?thesis using probe_left[OF asc, of i c k] cn gt i by simp
      qed
    qed
    show ?thesis
    proof (cases "d \<ge> e")
      case True
      then have ce: "e = c + 1" using d0 less.prems by (auto simp: d_def split: if_splits)
      have "?P i \<noteq> 0" if "0 \<le> i \<and> i < ?n" for i
      proof (cases "i \<le> c")
        case True then show ?thesis using left[THEN spec, of i] that by simp
      next
        case False then show ?thesis using less.prems(6)[THEN spec, of i] ce that by simp
      qed
      then have "find_ok dat k (- 1)"
        unfolding find_ok_def by simp
      then show ?thesis using unf True by simp
    next
      case False
      then have dc: "c < d" "d < e" using d0 less.prems by (auto simp: d_def split: if_splits)
      have "\<exists>r. find_loop dat k c d e = Some r \<and> find_ok dat k r"
      proof (rule less.hyps)
        show "nat (2 * (e - c)) + (if d = c then 1 else 0) < nat (2 * (e - a)) + (if c = a then 1 else 0)"
          using less.prems dc by auto
      qed (use less.prems dc cn left in auto)
      then show ?thesis using unf False by simp
    qed
  qed
qed

lemma half_bounds: "0 < (n::int) \<Longrightarrow> 0 \<le> n sdiv 2 \<and> n sdiv 2 < n"
  by (simp add: sdiv2_nonneg)

lemma linear_find_ge: "- 1 \<le> linear_find ks k"
  by (induction ks) (auto simp: Let_def)

lemma linear_find_none:
  "(\<forall>i < length ks. str_cmp k (ks ! i) \<noteq> 0) \<Longrightarrow> linear_find ks k = - 1"
proof (induction ks)
  case Nil
  then show ?case by simp
next
  case (Cons x xs)
  have "str_cmp k x \<noteq> 0" using Cons.prems by force
  moreover have "linear_find xs k = - 1"
    using Cons.prems by (intro Cons.IH) force
  ultimately show ?case by simp
qed

lemma linear_find_first:
  "r < length ks \<Longrightarrow> str_cmp k (ks ! r) = 0 \<Longrightarrow> (\<forall>i < r. str_cmp k (ks ! i) \<noteq> 0) \<Longrightarrow>
   linear_find ks k = int r"
proof (induction ks arbitrary: r)
  case Nil
  then show ?case by simp
next
  case (Cons x xs)
  show ?case
  proof (cases r)
    case 0
    then show ?thesis using Cons.prems by simp
  next
    case (Suc r')
    have "str_cmp k x \<noteq> 0" using Cons.prems(3) Suc by force
    moreover have "linear_find xs k = int r'"
      using Cons.prems Suc by (intro Cons.IH) force+
    ultimately show ?thesis using Suc by (simp add: Let_def)
  qed
qed

lemma find_ok_linear:
  assumes asc: "ascending (keys_of dat)" and ok: "find_ok dat k r"
  shows "r = linear_find (keys_of dat) k"
proof (cases "r = - 1")
  case True
  then have "\<forall>i < length (keys_of dat). str_cmp k (keys_of dat ! i) \<noteq> 0"
    using ok by (auto simp: find_ok_def keys_of_def)
       (metis nat_int of_nat_0_le_iff of_nat_less_iff)
  then show ?thesis using True linear_find_none by simp
next
  case False
  then have r: "0 \<le> r" "r < int (length dat)" "str_cmp k (key (dat ! nat r)) = 0"
    using ok by (auto simp: find_ok_def)
  have "linear_find (keys_of dat) k = int (nat r)"
  proof (rule linear_find_first)
    show "nat r < length (keys_of dat)" using r by (simp add: keys_of_def)
    show "str_cmp k (keys_of dat ! nat r) = 0" using r by (simp add: keys_of_def)
    show "\<forall>i<nat r. str_cmp k (keys_of dat ! i) \<noteq> 0"
    proof (intro allI impI)
      fix i assume "i < nat r"
      then have "0 < str_cmp k (key (dat ! nat (int i)))"
        using probe_left[OF asc, of "int i" r k] r by simp
      then show "str_cmp k (keys_of dat ! i) \<noteq> 0"
        using \<open>i < nat r\<close> r by (simp add: keys_of_def)
    qed
  qed
  then show ?thesis using r by simp
qed

lemma pos_ok_insertion_index:
  assumes "pos_ok dat k r"
  shows "r = insertion_index (keys_of dat) k"
proof -
  have "takeWhile (\<lambda>x. str_cmp k x > 0) (keys_of dat) = take (nat r) (keys_of dat)"
  proof (rule takeWhile_eq_take_P_nth)
    fix i assume "i < nat r" "i < length (keys_of dat)"
    then show "0 < str_cmp k (keys_of dat ! i)"
      using assms by (auto simp: pos_ok_def keys_of_def dest!: spec[of _ "int i"])
  next
    assume "nat r < length (keys_of dat)"
    then show "\<not> 0 < str_cmp k (keys_of dat ! nat r)"
      using assms by (auto simp: pos_ok_def keys_of_def dest!: spec[of _ r])
  qed
  then show ?thesis
    using assms by (auto simp: insertion_index_def pos_ok_def keys_of_def min_def)
qed

lemma ptr_dict_find_pos_ok:
  assumes "ascending (keys_of self)"
  shows "\<exists>r. ptr_dict_find_pos self k = Some r \<and> pos_ok self k r"
proof (cases "self = []")
  case True
  then show ?thesis by (auto simp: ptr_dict_find_pos_def pos_ok_def)
next
  case False
  then have n: "0 < int (length self)" by simp
  have "\<exists>r. find_pos_loop self k 0 (int (length self) sdiv 2) (int (length self)) = Some r \<and> pos_ok self k r"
    using half_bounds[OF n] by (intro find_pos_loop_spec[OF assms]) auto
  then show ?thesis using False by (simp add: ptr_dict_find_pos_def)
qed

lemma ptr_dict_find_ok:
  assumes "ascending (keys_of self)"
  shows "\<exists>r. ptr_dict_find self k = Some r \<and> find_ok self k r"
proof (cases "self = []")
  case True
  then show ?thesis by (auto simp: ptr_dict_find_def find_ok_def)
next
  case False
  then have n: "0 < int (length self)" by simp
  have "\<exists>r. find_loop self k 0 (int (length self) sdiv 2) (int (length self)) = Some r \<and> find_ok self k r"
    using half_bounds[OF n] by (intro find_loop_spec[OF assms]) auto
  then show ?thesis using False by (simp add: ptr_dict_find_def)
qed

lemma ptr_list_dict_find_eq: "ptr_list_dict_find self k = ptr_dict_find self k"
  by (simp add: ptr_list_dict_find_def ptr_dict_find_def)

lemma ptr_list_dict_find_pos_eq: "ptr_list_dict_find_pos self k = ptr_dict_find_pos self k"
  by (simp add: ptr_list_dict_find_pos_def ptr_dict_find_pos_def)

lemma pos_ok_at_equal:
  assumes asc: "ascending (keys_of dat)" and ok: "pos_ok dat k r"
    and i: "i < length dat" and eq: "str_cmp k (key (dat ! i)) = 0"
  shows "r = int i"
proof (rule ccontr)
  assume ne: "r \<noteq> int i"
  have r: "0 \<le> r" "r \<le> int (length dat)"
    using ok by (auto simp: pos_ok_def)
  show False
  proof (cases "int i < r")
    case True
    then have "0 < str_cmp k (key (dat ! nat (int i)))"
      using ok by (auto simp: pos_ok_def dest!: spec[of _ "int i"])
    then show False using eq by simp
  next
    case False
    then have lt: "r < int i" using ne by simp
    then have "str_cmp k (key (dat ! nat r)) \<le> 0"
      using ok i by (auto simp: pos_ok_def dest!: spec[of _ r])
    moreover have "0 < str_cmp k (key (dat ! nat r))"
      using probe_left[OF asc, of r "int i" k] r lt i eq by simp
    ultimately show False by simp
  qed
qed

text \<open>
  C2. On a dictionary whose keys are strictly ascending, \<open>ptr_dict_find_pos\<close> and
  \<open>ptr_list_dict_find_pos\<close> return, for every key \<open>k\<close>, the number of leading keys that
  \<open>k\<close> is greater than: the position of the key equal to \<open>k\<close> when there is one, else
  the position of the first greater key; 0 on the empty dictionary and the size when \<open>k\<close>
  is greater than every key. \<open>str_dict_find_pos\<close>, \<open>str_list_dict_find_pos\<close> and
  \<open>str_list_dict_dict_find_pos\<close> are these two functions.
\<close>

theorem find_insertion_pos_contract:
  assumes "ascending (keys_of self)"
  shows "ptr_dict_find_pos self k = Some (insertion_index (keys_of self) k) \<and>
         ptr_list_dict_find_pos self k = Some (insertion_index (keys_of self) k) \<and>
         pos_ok self k (insertion_index (keys_of self) k) \<and>
         (\<forall>i < length self. str_cmp k (key (self ! i)) = 0 \<longrightarrow>
            insertion_index (keys_of self) k = int i) \<and>
         (self = [] \<longrightarrow> insertion_index (keys_of self) k = 0) \<and>
         ((\<forall>x \<in> set (keys_of self). 0 < str_cmp k x) \<longrightarrow>
            insertion_index (keys_of self) k = int (length self)) \<and>
         str_dict_find_pos sd k = ptr_dict_find_pos sd k \<and>
         str_list_dict_find_pos ld k = ptr_list_dict_find_pos ld k \<and>
         str_list_dict_dict_find_pos dd k = ptr_list_dict_find_pos dd k"
proof -
  obtain r where r: "ptr_dict_find_pos self k = Some r" "pos_ok self k r"
    using ptr_dict_find_pos_ok[OF assms] by blast
  have ri: "r = insertion_index (keys_of self) k"
    using r(2) by (rule pos_ok_insertion_index)
  have "\<forall>i < length self. str_cmp k (key (self ! i)) = 0 \<longrightarrow> r = int i"
    using pos_ok_at_equal[OF assms r(2)] by blast
  moreover have "self = [] \<longrightarrow> insertion_index (keys_of self) k = 0"
    by (simp add: insertion_index_def keys_of_def)
  moreover have "(\<forall>x \<in> set (keys_of self). 0 < str_cmp k x) \<longrightarrow>
      insertion_index (keys_of self) k = int (length self)"
    by (auto simp: insertion_index_def keys_of_def takeWhile_eq_all_conv[THEN iffD2])
  ultimately show ?thesis
    using r ri
    by (simp add: ptr_list_dict_find_pos_eq str_dict_find_pos_def str_list_dict_find_pos_def
        str_list_dict_dict_find_pos_def)
qed

theorem find_insertion_pos_contract_witness:
  "ascending (keys_of [\<lparr>key = Some ''a'', val = Some ''1''\<rparr>, \<lparr>key = Some ''c'', val = Some ''2''\<rparr>]) \<and>
   ptr_dict_find_pos [\<lparr>key = Some ''a'', val = Some ''1''\<rparr>, \<lparr>key = Some ''c'', val = Some ''2''\<rparr>]
     (Some ''b'') = Some 1"
proof -
  let ?d = "[\<lparr>key = Some ''a'', val = Some ''1''\<rparr>, \<lparr>key = Some ''c'', val = Some ''2''\<rparr>]"
  have h: "ascending (keys_of ?d)"
    by code_simp
  have "insertion_index (keys_of ?d) (Some ''b'') = 1"
    by code_simp
  then show ?thesis
    using h find_insertion_pos_contract[OF h, of "Some ''b''"] by simp
qed

text \<open>
  C3. On a dictionary whose keys are strictly ascending, \<open>ptr_dict_find\<close> and
  \<open>ptr_list_dict_find\<close> return what the linear search from the left returns: the
  position of the one entry whose key equals \<open>k\<close>, or \<open>- 1\<close> when no key equals \<open>k\<close>.
  \<open>str_dict_find\<close>, \<open>str_list_dict_find\<close> and \<open>str_list_dict_dict_find\<close> are these two
  functions.
\<close>

theorem find_exact_contract:
  assumes "ascending (keys_of self)"
  shows "ptr_dict_find self k = Some (linear_find (keys_of self) k) \<and>
         ptr_list_dict_find self k = Some (linear_find (keys_of self) k) \<and>
         find_ok self k (linear_find (keys_of self) k) \<and>
         (\<forall>i < length self. str_cmp k (key (self ! i)) = 0 \<longrightarrow>
            linear_find (keys_of self) k = int i) \<and>
         str_dict_find sd k = ptr_dict_find sd k \<and>
         str_list_dict_find ld k = ptr_list_dict_find ld k \<and>
         str_list_dict_dict_find dd k = ptr_list_dict_find dd k"
proof -
  obtain r where r: "ptr_dict_find self k = Some r" "find_ok self k r"
    using ptr_dict_find_ok[OF assms] by blast
  have rl: "r = linear_find (keys_of self) k"
    using assms r(2) by (rule find_ok_linear)
  obtain q where q: "ptr_dict_find_pos self k = Some q" "pos_ok self k q"
    using ptr_dict_find_pos_ok[OF assms] by blast
  have "r = int i" if i: "i < length self" "str_cmp k (key (self ! i)) = 0" for i
  proof -
    have "r \<noteq> - 1"
      using r(2) i by (auto simp: find_ok_def dest!: spec[of _ "int i"])
    then have "0 \<le> r" "r < int (length self)" "str_cmp k (key (self ! nat r)) = 0"
      using r(2) by (auto simp: find_ok_def)
    then have "q = int (nat r)"
      using pos_ok_at_equal[OF assms q(2), of "nat r"] by simp
    moreover have "q = int i"
      using pos_ok_at_equal[OF assms q(2) i] .
    ultimately show ?thesis using \<open>0 \<le> r\<close> by simp
  qed
  then show ?thesis
    using r rl
    by (simp add: ptr_list_dict_find_eq str_dict_find_def str_list_dict_find_def
        str_list_dict_dict_find_def)
qed

theorem find_exact_contract_witness:
  "ascending (keys_of [\<lparr>key = Some ''a'', val = Some ''1''\<rparr>, \<lparr>key = Some ''c'', val = Some ''2''\<rparr>]) \<and>
   ptr_dict_find [\<lparr>key = Some ''a'', val = Some ''1''\<rparr>, \<lparr>key = Some ''c'', val = Some ''2''\<rparr>]
     (Some ''c'') = Some 1 \<and>
   ptr_dict_find [\<lparr>key = Some ''a'', val = Some ''1''\<rparr>, \<lparr>key = Some ''c'', val = Some ''2''\<rparr>]
     (Some ''b'') = Some (- 1)"
proof -
  let ?d = "[\<lparr>key = Some ''a'', val = Some ''1''\<rparr>, \<lparr>key = Some ''c'', val = Some ''2''\<rparr>]"
  have h: "ascending (keys_of ?d)"
    by code_simp
  have "linear_find (keys_of ?d) (Some ''c'') = 1" "linear_find (keys_of ?d) (Some ''b'') = - 1"
    by code_simp+
  then show ?thesis
    using h find_exact_contract[OF h, of "Some ''c''"] find_exact_contract[OF h, of "Some ''b''"]
    by simp
qed

text \<open>
  C4. \<open>str_cmp\<close> returns 0 for two \<open>NULL\<close> strings, 1 when only the first is \<open>NULL\<close>
  and \<open>- 1\<close> when only the second is: a \<open>NULL\<close> string orders after every other
  string. For two strings it returns what \<open>strcmp\<close> returns, which is 0 exactly when
  they hold the same bytes, negative exactly when the first comes before the second in
  the lexicographic order of their bytes, and changes sign when the arguments are
  swapped.
\<close>

theorem str_cmp_contract:
  "str_cmp None None = 0 \<and>
   str_cmp None (Some s) = 1 \<and>
   str_cmp (Some s) None = - 1 \<and>
   str_cmp (Some s) (Some t) = strcmp s t \<and>
   (strcmp s t = 0) = (cstr s = cstr t) \<and>
   (strcmp s t < 0) = ((cstr s, cstr t) \<in> lexord {(a, b). (of_char a :: nat) < of_char b}) \<and>
   strcmp t s = - strcmp s t"
  using strcmp_lexord[of s t] by (simp add: str_cmp_def strcmp_cstr strcmp_sym[of t s])

theorem str_cmp_absent_first_counterexample:
  "str_cmp None (Some ''a'') = 1 \<and> str_cmp (Some ''a'') None = - 1 \<and>
   str_cmp (Some ''a'') (Some ''c'') = - 2"
  by (simp add: str_cmp_def)

lemma cstr_id: "NUL \<notin> set s \<Longrightarrow> cstr s = s"
  by (auto simp: cstr_def)

lemma cstr_append_NUL: "NUL \<notin> set s \<Longrightarrow> cstr (s @ NUL # r) = s"
  by (auto simp: cstr_def takeWhile_tail)

lemma cstr_take_buffer:
  assumes "NUL \<notin> set s"
  shows "cstr (take m (drop a (s @ [NUL]))) = take m (drop a s)"
proof (cases "a + m \<le> length s")
  case True
  then have eq: "take m (drop a (s @ [NUL])) = take m (drop a s)"
    by simp
  have "NUL \<notin> set (take m (drop a s))"
    using assms by (meson in_set_dropD in_set_takeD)
  then show ?thesis unfolding eq by (rule cstr_id)
next
  case False
  show ?thesis
  proof (cases "a \<le> length s")
    case True
    then have eq: "take m (drop a (s @ [NUL])) = drop a s @ [NUL]"
      using False by simp
    have eq2: "take m (drop a s) = drop a s"
      using False by simp
    have "NUL \<notin> set (drop a s)"
      using assms by (meson in_set_dropD)
    then show ?thesis unfolding eq eq2 by (rule cstr_append_NUL)
  next
    case False
    then show ?thesis by (simp add: cstr_def)
  qed
qed

lemma str_cut_general:
  assumes "NUL \<notin> set s"
  shows "str_cut (Some s) a b =
           (let n = int (length s);
                a' = (if a < 0 then n + a else a);
                b' = (if b < 0 then n + b else b)
            in if a' < 0 \<or> b' < 0 \<or> n \<le> a' \<or> b' < a' then Some []
               else Some (take (nat (min b' n - a')) (drop (nat a') s)))"
proof -
  have len: "str_len (Some s) = int (length s)"
    using assms by (simp add: str_len_def strlen_def cstr_id)
  let ?n = "int (length s)"
  let ?a = "if a < 0 then ?n + a else a"
  let ?b = "if b < 0 then ?n + b else b"
  have "str_cut (Some s) a b =
          (if ?a < 0 \<or> ?b < 0 \<or> ?n \<le> ?a \<or> ?b < ?a then Some []
           else Some (take (nat (min ?b ?n - ?a)) (drop (nat ?a) s)))"
  proof (cases "?a < 0 \<or> ?b < 0 \<or> ?n \<le> ?a \<or> ?b < ?a")
    case True
    have "str_cut (Some s) a b = str_dup (Some [])"
      unfolding str_cut_def len Let_def option.case using True by (simp only: if_True)
    then show ?thesis
      using True by (simp add: str_dup_def cstr_def)
  next
    case False
    let ?bb = "if ?n \<le> ?b then ?n + 1 else ?b"
    have "str_cut (Some s) a b = Some (cstr (take (nat (?bb - ?a)) (drop (nat ?a) (s @ [NUL]))))"
      unfolding str_cut_def len Let_def option.case using False by (simp only: if_False)
    also have "\<dots> = Some (take (nat (?bb - ?a)) (drop (nat ?a) s))"
      by (simp only: cstr_take_buffer[OF assms])
    also have "take (nat (?bb - ?a)) (drop (nat ?a) s) = take (nat (min ?b ?n - ?a)) (drop (nat ?a) s)"
    proof (cases "?n \<le> ?b")
      case True
      then have "min ?b ?n = ?n" by simp
      moreover have "?bb = ?n + 1" using True by simp
      ultimately show ?thesis by simp
    next
      case False
      then have "min ?b ?n = ?b" "?bb = ?b" by simp_all
      then show ?thesis by simp
    qed
    finally show ?thesis using False by (simp only: if_False)
  qed
  then show "str_cut (Some s) a b =
           (let n = int (length s);
                a' = (if a < 0 then n + a else a);
                b' = (if b < 0 then n + b else b)
            in if a' < 0 \<or> b' < 0 \<or> n \<le> a' \<or> b' < a' then Some []
               else Some (take (nat (min b' n - a')) (drop (nat a') s)))"
    by (simp only: Let_def)
qed

text \<open>
  C9. For a string \<open>s\<close>, \<open>str_cut\<close> first adds the length to a negative \<open>a\<close> or \<open>b\<close>.
  If then \<open>a\<close> or \<open>b\<close> is still negative, \<open>a\<close> is not below the length, or \<open>b\<close> is
  below \<open>a\<close>, the result is the empty string; otherwise it is the bytes from \<open>a\<close> up to,
  not including, \<open>b\<close>, with \<open>b\<close> cut down to the length. So
  \<open>cut("hello", -3, -1) = "ll"\<close>, \<open>cut("hello", 1, 100) = "ello"\<close>,
  \<open>cut("hello", 3, 1) = ""\<close>.
\<close>

theorem str_cut_slice:
  assumes "NUL \<notin> set s"
  shows "str_cut (Some s) a b =
           (let n = int (length s);
                a' = (if a < 0 then n + a else a);
                b' = (if b < 0 then n + b else b)
            in if a' < 0 \<or> b' < 0 \<or> n \<le> a' \<or> b' < a' then Some []
               else Some (take (nat (min b' n - a')) (drop (nat a') s))) \<and>
         str_cut (Some ''hello'') (- 3) (- 1) = Some ''ll'' \<and>
         str_cut (Some ''hello'') 1 100 = Some ''ello'' \<and>
         str_cut (Some ''hello'') 3 1 = Some []"
proof -
  have "str_cut (Some s) a b =
           (let n = int (length s);
                a' = (if a < 0 then n + a else a);
                b' = (if b < 0 then n + b else b)
            in if a' < 0 \<or> b' < 0 \<or> n \<le> a' \<or> b' < a' then Some []
               else Some (take (nat (min b' n - a')) (drop (nat a') s)))"
    using assms by (rule str_cut_general)
  moreover have "str_cut (Some ''hello'') (- 3) (- 1) = Some ''ll''"
    by code_simp
  moreover have "str_cut (Some ''hello'') 1 100 = Some ''ello''"
    by code_simp
  moreover have "str_cut (Some ''hello'') 3 1 = Some []"
    by code_simp
  ultimately show ?thesis by blast
qed

theorem str_cut_slice_witness:
  "NUL \<notin> set ''hello'' \<and> str_cut (Some ''hello'') (- 4) 3 = Some ''el''"
proof -
  have h: "NUL \<notin> set ''hello''" by simp
  show ?thesis
    using h str_cut_slice[OF h, of "- 4" 3] by (simp add: Let_def)
qed

lemma length_shift_up: "length (shift_up xs pos i) = length xs"
  by (induction xs pos i rule: shift_up.induct) (subst shift_up.simps, simp)

lemma nth_shift_up:
  "i < length xs \<Longrightarrow> j < length xs \<Longrightarrow>
   shift_up xs pos i ! j = (if pos < j \<and> j \<le> i then xs ! (j - 1) else xs ! j)"
proof (induction xs pos i rule: shift_up.induct)
  case (1 xs pos i)
  show ?case
  proof (cases "pos < i")
    case True
    have "shift_up xs pos i ! j = shift_up (xs[i := xs ! (i - 1)]) pos (i - 1) ! j"
      using True by (subst shift_up.simps) simp
    also have "\<dots> = (if pos < j \<and> j \<le> i - 1 then xs[i := xs ! (i - 1)] ! (j - 1)
                      else xs[i := xs ! (i - 1)] ! j)"
      using True "1.prems" by (intro "1.IH") auto
    also have "\<dots> = (if pos < j \<and> j \<le> i then xs ! (j - 1) else xs ! j)"
      using True "1.prems" by (auto simp: nth_list_update)
    finally show ?thesis .
  next
    case False
    then show ?thesis by (subst shift_up.simps) auto
  qed
qed

lemma set_shift_up: "set (shift_up xs pos i) \<subseteq> set xs"
proof (induction xs pos i rule: shift_up.induct)
  case (1 xs pos i)
  show ?case
  proof (cases "pos < i")
    case True
    have "set (xs[i := xs ! (i - 1)]) \<subseteq> set xs"
    proof (cases "i < length xs")
      case True
      then have "xs ! (i - 1) \<in> set xs" by simp
      then show ?thesis using set_update_subset_insert[of xs i "xs ! (i - 1)"] by auto
    next
      case False
      then show ?thesis by (simp add: list_update_beyond)
    qed
    moreover have "shift_up xs pos i = shift_up (xs[i := xs ! (i - 1)]) pos (i - 1)"
      using True by (subst shift_up.simps) simp
    ultimately show ?thesis using "1.IH"[OF True] by auto
  next
    case False
    then show ?thesis by (subst shift_up.simps) auto
  qed
qed

lemma shift_up_insert:
  assumes "pos \<le> length xs"
  shows "(shift_up (xs @ [e]) pos (length xs))[pos := e'] = take pos xs @ [e'] @ drop pos xs"
proof (rule nth_equalityI)
  show "length ((shift_up (xs @ [e]) pos (length xs))[pos := e']) = length (take pos xs @ [e'] @ drop pos xs)"
    using assms by (simp add: length_shift_up)
next
  fix j assume "j < length ((shift_up (xs @ [e]) pos (length xs))[pos := e'])"
  then have j: "j < length xs + 1" by (simp add: length_shift_up)
  have sh: "shift_up (xs @ [e]) pos (length xs) ! j =
      (if pos < j \<and> j \<le> length xs then (xs @ [e]) ! (j - 1) else (xs @ [e]) ! j)"
    using j by (intro nth_shift_up) auto
  show "(shift_up (xs @ [e]) pos (length xs))[pos := e'] ! j = (take pos xs @ [e'] @ drop pos xs) ! j"
  proof (cases "j = pos")
    case True
    then show ?thesis using assms j by (simp add: length_shift_up nth_append)
  next
    case False
    then show ?thesis
      using assms j sh by (auto simp: length_shift_up nth_append min_def)
  qed
qed

lemma strcmp_cstr_left: "strcmp (cstr s) t = strcmp s t"
  by (induction s t rule: strcmp.induct) (auto simp: cstr_def)

lemma str_cmp_str_dup_left: "str_cmp (str_dup a) b = str_cmp a b"
  by (cases a; cases b) (auto simp: str_cmp_def str_dup_def strcmp_cstr_left)

lemma str_cmp_str_dup_right: "str_cmp a (str_dup b) = str_cmp a b"
  using str_cmp_sym[of "str_dup b" a] str_cmp_sym[of b a] by (simp add: str_cmp_str_dup_left)

lemma str_dup_None: "str_dup k = None \<longleftrightarrow> k = None"
  by (cases k) (auto simp: str_dup_def)

lemma ascending_insert:
  assumes asc: "ascending (keys_of self)" and ok: "pos_ok self k r"
    and ne: "\<not> (r < int (length self) \<and> str_cmp (key (self ! nat r)) k = 0)"
    and kn: "str_cmp (key new) k = 0"
  shows "ascending (keys_of (take (nat r) self @ [new] @ drop (nat r) self))"
proof -
  let ?P = "\<lambda>x y. str_cmp x y < 0"
  let ?ks = "keys_of self"
  have r: "0 \<le> r" "r \<le> int (length self)" using ok by (auto simp: pos_ok_def)
  have sw: "sorted_wrt ?P ?ks" using asc by (simp add: ascending_sorted_wrt)
  have kk: "str_cmp k (key new) = 0" using kn str_cmp_sym[of k "key new"] by simp
  have left: "?P x (key new)" if mem: "x \<in> set (take (nat r) ?ks)" for x
  proof -
    obtain i where "i < length (take (nat r) ?ks)" "take (nat r) ?ks ! i = x"
      using mem unfolding in_set_conv_nth by blast
    then have i: "i < nat r" "i < length ?ks" "x = ?ks ! i"
      by auto
    have "0 < str_cmp k (key (self ! nat (int i)))"
      using ok i by (auto simp: pos_ok_def dest!: spec[of _ "int i"])
    then have "str_cmp x k < 0"
      using i str_cmp_sym[of k x] by (simp add: keys_of_def)
    then show ?thesis using kk str_cmp_less_le_trans[of x k "key new"] by simp
  qed
  have right: "?P (key new) y" if mem: "y \<in> set (drop (nat r) ?ks)" for y
  proof -
    obtain j where "j < length (drop (nat r) ?ks)" "drop (nat r) ?ks ! j = y"
      using mem unfolding in_set_conv_nth by blast
    then have "nat r \<le> nat r + j \<and> nat r + j < length ?ks \<and> y = ?ks ! (nat r + j)"
      by auto
    then obtain i where i: "nat r \<le> i" "i < length ?ks" "y = ?ks ! i"
      by blast
    have rl: "r < int (length self)" using i r by (simp add: keys_of_def)
    have "str_cmp k (key (self ! nat r)) \<le> 0"
      using ok rl r by (auto simp: pos_ok_def dest!: spec[of _ r])
    moreover have "str_cmp k (key (self ! nat r)) \<noteq> 0"
      using ne rl str_cmp_sym[of k "key (self ! nat r)"] by simp
    ultimately have lt: "str_cmp k (key (self ! nat r)) < 0" by simp
    have "str_cmp k y < 0"
    proof (cases "i = nat r")
      case True
      then show ?thesis using lt i by (simp add: keys_of_def)
    next
      case False
      then have "str_cmp k (key (self ! nat (int i))) < 0"
        using probe_right[OF asc, of r "int i" k] r i lt by (simp add: keys_of_def)
      then show ?thesis using i by (simp add: keys_of_def)
    qed
    then show ?thesis using kn str_cmp_le_less_trans[of "key new" k y] by simp
  qed
  have "sorted_wrt ?P (take (nat r) ?ks @ [key new] @ drop (nat r) ?ks)"
    unfolding sorted_wrt_append
    using sw left right
    by (auto intro: sorted_wrt_take sorted_wrt_drop dest: in_set_takeD in_set_dropD
             simp: sorted_wrt_append)
       (metis append_take_drop_id sorted_wrt_append sw)
  then show ?thesis
    by (simp add: ascending_sorted_wrt keys_of_def take_map drop_map)
qed

lemma find_pos_present:
  assumes asc: "ascending (keys_of self)" and i: "i < length self"
    and eq: "str_cmp k (key (self ! i)) = 0"
  shows "ptr_dict_find_pos self k = Some (int i)"
proof -
  obtain r where r: "ptr_dict_find_pos self k = Some r" "pos_ok self k r"
    using ptr_dict_find_pos_ok[OF asc] by blast
  then show ?thesis using pos_ok_at_equal[OF asc r(2) i eq] by simp
qed

lemma str_equal_sym: "str_equal a b \<longleftrightarrow> str_cmp b a = 0"
  using str_cmp_sym[of a b] by (simp add: str_equal_def)

lemma keys_of_update_val: "keys_of (self[i := (self ! i)\<lparr>val := f\<rparr>]) = keys_of self"
  by (simp add: keys_of_def map_update) (metis list_update_id map_update)

lemma filter_single:
  assumes "i < length xs" "P (xs ! i)" "\<forall>j < length xs. j \<noteq> i \<longrightarrow> \<not> P (xs ! j)"
  shows "filter P xs = [xs ! i]"
proof -
  have xs: "xs = take i xs @ xs ! i # drop (Suc i) xs"
    using assms(1) by (rule id_take_nth_drop)
  have "\<not> P x" if mem: "x \<in> set (take i xs)" for x
  proof -
    obtain j where "j < length (take i xs)" "take i xs ! j = x"
      using mem unfolding in_set_conv_nth by blast
    then show ?thesis using assms(1,3) by auto
  qed
  then have l: "filter P (take i xs) = []" by (simp add: filter_empty_conv)
  have "\<not> P x" if mem: "x \<in> set (drop (Suc i) xs)" for x
  proof -
    obtain j where "j < length (drop (Suc i) xs)" "drop (Suc i) xs ! j = x"
      using mem unfolding in_set_conv_nth by blast
    then show ?thesis using assms(1,3) by auto
  qed
  then have r: "filter P (drop (Suc i) xs) = []" by (simp add: filter_empty_conv)
  have "filter P xs = filter P (take i xs @ xs ! i # drop (Suc i) xs)"
    using xs by simp
  then show ?thesis using l r assms(2) by simp
qed

lemma ascending_key_unique:
  assumes asc: "ascending (keys_of self)" and i: "i < length self" and j: "j < length self"
    and eq: "str_cmp k (key (self ! i)) = 0" and ne: "j \<noteq> i"
  shows "str_cmp k (key (self ! j)) \<noteq> 0"
proof (cases "j < i")
  case True
  then have "0 < str_cmp k (key (self ! nat (int j)))"
    using probe_left[OF asc, of "int j" "int i" k] i eq by simp
  then show ?thesis by simp
next
  case False
  then have "str_cmp k (key (self ! nat (int j))) < 0"
    using probe_right[OF asc, of "int i" "int j" k] j eq ne by simp
  then show ?thesis by simp
qed

text \<open>The two ways an upsert of a present key \<open>k\<close> can go, for all dictionary types.\<close>

lemma upsert_cases:
  assumes asc: "ascending (keys_of self)"
  shows "\<exists>pos. ptr_dict_find_pos self k = Some pos \<and> 0 \<le> pos \<and> pos \<le> int (length self) \<and>
     (if pos < int (length self) \<and> str_equal (key (self ! nat pos)) k
      then \<forall>f. ascending (keys_of (self[nat pos := (self ! nat pos)\<lparr>val := f\<rparr>]))
      else \<forall>new. key new = str_dup k \<longrightarrow>
             (shift_up (self @ [new]) (nat pos) (length self))[nat pos := new]
               = take (nat pos) self @ [new] @ drop (nat pos) self \<and>
             ascending (keys_of (take (nat pos) self @ [new] @ drop (nat pos) self)))"
proof -
  obtain r where r: "ptr_dict_find_pos self k = Some r" "pos_ok self k r"
    using ptr_dict_find_pos_ok[OF asc] by blast
  have rr: "0 \<le> r" "r \<le> int (length self)" using r(2) by (auto simp: pos_ok_def)
  show ?thesis
  proof (cases "r < int (length self) \<and> str_equal (key (self ! nat r)) k")
    case True
    then show ?thesis using r rr asc by (auto simp: keys_of_update_val)
  next
    case False
    have "(shift_up (self @ [new]) (nat r) (length self))[nat r := new]
               = take (nat r) self @ [new] @ drop (nat r) self \<and>
             ascending (keys_of (take (nat r) self @ [new] @ drop (nat r) self))"
      if kn: "key new = str_dup k" for new :: "'a dict_entry"
    proof
      show "(shift_up (self @ [new]) (nat r) (length self))[nat r := new]
               = take (nat r) self @ [new] @ drop (nat r) self"
        using rr by (intro shift_up_insert) simp
      show "ascending (keys_of (take (nat r) self @ [new] @ drop (nat r) self))"
        using asc r(2)
      proof (rule ascending_insert)
        show "\<not> (r < int (length self) \<and> str_cmp (key (self ! nat r)) k = 0)"
          using False by (simp add: str_equal_def)
        show "str_cmp (key new) k = 0"
          using kn by (simp add: str_cmp_str_dup_left str_cmp_refl)
      qed
    qed
    then show ?thesis using r rr False by auto
  qed
qed

lemma str_dict_adds_present:
  assumes asc: "ascending (keys_of self)" and i: "i < length self"
    and eq: "str_equal (key (self ! i)) (Some s)"
  shows "str_dict_adds self (Some s) v = Inr (self[i := (self ! i)\<lparr>val := str_sets (val (self ! i)) v\<rparr>])"
proof -
  have "ptr_dict_find_pos self (Some s) = Some (int i)"
    using asc i eq by (intro find_pos_present) (simp_all add: str_equal_sym)
  then show ?thesis
    using i eq by (simp add: str_dict_adds_def str_dict_find_pos_def)
qed

lemma str_list_dict_adds_present:
  assumes asc: "ascending (keys_of self)" and i: "i < length self"
    and eq: "str_equal (key (self ! i)) (Some s)"
  shows "str_list_dict_adds self (Some s) v =
           Inr (self[i := (self ! i)\<lparr>val := str_list_adds_all (val (self ! i)) v\<rparr>])"
proof -
  have "ptr_dict_find_pos self (Some s) = Some (int i)"
    using asc i eq by (intro find_pos_present) (simp_all add: str_equal_sym)
  then show ?thesis
    using i eq by (simp add: str_list_dict_adds_def str_list_dict_find_pos_def ptr_list_dict_find_pos_eq)
qed

lemma str_list_dict_dict_adds_present:
  assumes asc: "ascending (keys_of self)" and i: "i < length self"
    and eq: "str_equal (key (self ! i)) (Some s)"
  shows "str_list_dict_dict_adds self (Some s) v =
           Inr (self[i := (self ! i)\<lparr>val := str_list_dict_sets (val (self ! i)) v\<rparr>])"
proof -
  have "ptr_dict_find_pos self (Some s) = Some (int i)"
    using asc i eq by (intro find_pos_present) (simp_all add: str_equal_sym)
  then show ?thesis
    using i eq by (simp add: str_list_dict_dict_adds_def str_list_dict_dict_find_pos_def ptr_list_dict_find_pos_eq)
qed

lemma str_dict_adds_empty:
  "str_dict_adds [] (Some s) v = Inr [\<lparr>key = Some (cstr s), val = v\<rparr>]"
  by (simp add: str_dict_adds_def str_dict_find_pos_def ptr_dict_find_pos_def Let_def
      str_dup_def shift_up.simps)

lemma str_list_dict_adds_empty:
  "str_list_dict_adds [] (Some s) (Some vs) = Inr [\<lparr>key = Some (cstr s), val = vs\<rparr>]"
  by (simp add: str_list_dict_adds_def str_list_dict_find_pos_def ptr_list_dict_find_pos_def Let_def
      str_dup_def shift_up.simps)

lemma ascending_single: "ascending (keys_of [e])"
  by (simp add: keys_of_def)

lemma cstr_idem: "cstr (cstr s) = cstr s"
  by (simp add: cstr_def)

lemma str_equal_cstr: "str_equal (Some (cstr s)) (Some s)"
  by (simp add: str_equal_def str_cmp_def strcmp_cstr cstr_idem)

text \<open>
  C5. For a \<open>str_dict_t\<close> with strictly ascending keys, \<open>str_dict_adds\<close> of a key that
  entry \<open>i\<close> already holds, with a value that is not \<open>NULL\<close>, returns the dictionary
  with the value of entry \<open>i\<close> replaced and nothing else changed (\<open>str_dict_add\<close> stores
  a copy), so the size is the same and that entry is the only one with the key. With a
  \<open>NULL\<close> value the dictionary is returned as it was. Two upserts of one key into the
  empty dictionary, the second with a value that is not \<open>NULL\<close>, leave one entry holding
  the second value.
\<close>

theorem str_dict_upsert_replaces:
  assumes "ascending (keys_of self)" and "i < length self"
    and "str_equal (key (self ! i)) (Some s)"
  shows "str_dict_adds self (Some s) (Some v) = Inr (self[i := (self ! i)\<lparr>val := Some v\<rparr>]) \<and>
         str_dict_add self (Some s) (Some v) = Inr (self[i := (self ! i)\<lparr>val := Some (cstr v)\<rparr>]) \<and>
         str_dict_adds self (Some s) None = Inr self \<and>
         length (self[i := (self ! i)\<lparr>val := Some v\<rparr>]) = length self \<and>
         filter (\<lambda>e. str_equal (key e) (Some s)) (self[i := (self ! i)\<lparr>val := Some v\<rparr>])
           = [(self ! i)\<lparr>val := Some v\<rparr>] \<and>
         str_dict_adds [] (Some s) v1 = Inr [\<lparr>key = Some (cstr s), val = v1\<rparr>] \<and>
         str_dict_adds [\<lparr>key = Some (cstr s), val = v1\<rparr>] (Some s) (Some v2)
           = Inr [\<lparr>key = Some (cstr s), val = Some v2\<rparr>]"
proof -
  let ?self' = "self[i := (self ! i)\<lparr>val := Some v\<rparr>]"
  have a: "str_dict_adds self (Some s) (Some v) = Inr ?self'"
    using str_dict_adds_present[OF assms, of "Some v"] by (simp add: str_sets_def)
  have b: "str_dict_add self (Some s) (Some v) = Inr (self[i := (self ! i)\<lparr>val := Some (cstr v)\<rparr>])"
    using str_dict_adds_present[OF assms, of "Some (cstr v)"]
    by (simp add: str_sets_def str_dict_add_def str_dup_def)
  have c: "str_dict_adds self (Some s) None = Inr self"
    using str_dict_adds_present[OF assms, of None] by (simp add: str_sets_def)
  have asc': "ascending (keys_of ?self')"
    using assms(1) by (simp add: keys_of_update_val)
  have d: "filter (\<lambda>e. str_equal (key e) (Some s)) ?self' = [?self' ! i]"
  proof (rule filter_single)
    show "i < length ?self'" using assms(2) by simp
    show "str_equal (key (?self' ! i)) (Some s)" using assms(2,3) by simp
    show "\<forall>j<length ?self'. j \<noteq> i \<longrightarrow> \<not> str_equal (key (?self' ! j)) (Some s)"
    proof (intro allI impI)
      fix j assume j: "j < length ?self'" "j \<noteq> i"
      have "str_cmp (Some s) (key (?self' ! j)) \<noteq> 0"
        using asc'
      proof (rule ascending_key_unique)
        show "i < length ?self'" using assms(2) by simp
        show "j < length ?self'" by (rule j(1))
        show "str_cmp (Some s) (key (?self' ! i)) = 0"
          using assms(2,3) by (simp add: str_equal_sym)
        show "j \<noteq> i" by (rule j(2))
      qed
      then show "\<not> str_equal (key (?self' ! j)) (Some s)"
        by (simp add: str_equal_sym)
    qed
  qed
  have e: "str_dict_adds [\<lparr>key = Some (cstr s), val = v1\<rparr>] (Some s) (Some v2)
           = Inr [\<lparr>key = Some (cstr s), val = Some v2\<rparr>]"
    using str_dict_adds_present[of "[\<lparr>key = Some (cstr s), val = v1\<rparr>]" 0 s "Some v2"]
    by (simp add: ascending_single str_equal_cstr str_sets_def)
  show ?thesis
    using a b c d e assms(2) by (simp add: str_dict_adds_empty)
qed

theorem str_dict_upsert_replaces_witness:
  "ascending (keys_of [\<lparr>key = Some ''a'', val = Some ''1''\<rparr>, \<lparr>key = Some ''b'', val = Some ''2''\<rparr>]) \<and>
   (1::nat) < length [\<lparr>key = Some ''a'', val = Some ''1''\<rparr>, \<lparr>key = Some ''b'', val = Some ''2''\<rparr>] \<and>
   str_equal (key ([\<lparr>key = Some ''a'', val = Some ''1''\<rparr>, \<lparr>key = Some ''b'', val = Some ''2''\<rparr>] ! 1)) (Some ''b'') \<and>
   str_dict_adds [\<lparr>key = Some ''a'', val = Some ''1''\<rparr>, \<lparr>key = Some ''b'', val = Some ''2''\<rparr>]
      (Some ''b'') (Some ''3'')
     = Inr [\<lparr>key = Some ''a'', val = Some ''1''\<rparr>, \<lparr>key = Some ''b'', val = Some ''3''\<rparr>]"
proof -
  let ?d = "[\<lparr>key = Some ''a'', val = Some ''1''\<rparr>, \<lparr>key = Some ''b'', val = Some ''2''\<rparr>]"
  have h1: "ascending (keys_of ?d)" by code_simp
  have h2: "(1::nat) < length ?d" by simp
  have h3: "str_equal (key (?d ! 1)) (Some ''b'')" by code_simp
  show ?thesis
    using h1 h2 h3 str_dict_upsert_replaces[OF h1 h2 h3, of "''3''"] by simp
qed

theorem flat_upsert_replaces_counterexample:
  "str_dict_adds [\<lparr>key = Some ''a'', val = Some ''1''\<rparr>] (Some ''a'') None
     = Inr [\<lparr>key = Some ''a'', val = Some ''1''\<rparr>] \<and>
   ptr_dict_adds [\<lparr>key = Some ''a'', val = Some (1::nat)\<rparr>] (Some ''a'') (Some 2)
     = Inr [\<lparr>key = Some ''a'', val = Some 2\<rparr>, \<lparr>key = Some ''a'', val = Some 1\<rparr>]"
  by code_simp

lemma str_list_dict_adds_ascending:
  assumes asc: "ascending (keys_of self)" and nn: "None \<notin> set (keys_of self)"
  shows "\<exists>self'. str_list_dict_adds self k (Some vs) = Inr self' \<and>
           ascending (keys_of self') \<and> None \<notin> set (keys_of self')"
proof (cases k)
  case None
  then show ?thesis using asc nn by (simp add: str_list_dict_adds_def)
next
  case (Some s)
  obtain pos where pos: "ptr_dict_find_pos self k = Some pos" "0 \<le> pos" "pos \<le> int (length self)"
    and alt: "if pos < int (length self) \<and> str_equal (key (self ! nat pos)) k
      then \<forall>f. ascending (keys_of (self[nat pos := (self ! nat pos)\<lparr>val := f\<rparr>]))
      else \<forall>new. key new = str_dup k \<longrightarrow>
             (shift_up (self @ [new]) (nat pos) (length self))[nat pos := new]
               = take (nat pos) self @ [new] @ drop (nat pos) self \<and>
             ascending (keys_of (take (nat pos) self @ [new] @ drop (nat pos) self))"
    using upsert_cases[OF asc, of k] by blast
  let ?new = "\<lparr>key = str_dup k, val = vs\<rparr>"
  let ?ins = "take (nat pos) self @ [?new] @ drop (nat pos) self"
  have unf: "str_list_dict_adds self k (Some vs) =
      (if pos < int (length self) \<and> str_equal (key (self ! nat pos)) k
       then Inr (self[nat pos := (self ! nat pos)\<lparr>val := str_list_adds_all (val (self ! nat pos)) (Some vs)\<rparr>])
       else Inr ((shift_up (self @ [?new]) (nat pos) (length self))[nat pos := ?new]))"
    using pos(1) Some
    by (simp add: str_list_dict_adds_def str_list_dict_find_pos_def ptr_list_dict_find_pos_eq Let_def)
  show ?thesis
  proof (cases "pos < int (length self) \<and> str_equal (key (self ! nat pos)) k")
    case True
    have "ascending (keys_of (self[nat pos := (self ! nat pos)\<lparr>val := str_list_adds_all (val (self ! nat pos)) (Some vs)\<rparr>]))"
      using alt True by simp
    then show ?thesis
      unfolding unf using True nn by (simp add: keys_of_update_val)
  next
    case False
    have ins: "(shift_up (self @ [?new]) (nat pos) (length self))[nat pos := ?new] = ?ins"
      and asc': "ascending (keys_of ?ins)"
      using alt False by auto
    have "None \<notin> set (keys_of ?ins)"
      using nn Some by (auto simp: keys_of_def str_dup_def dest: in_set_takeD in_set_dropD)
    then show ?thesis
      unfolding unf ins using False asc' by auto
  qed
qed

lemma str_dict_adds_ascending:
  assumes asc: "ascending (keys_of self)" and nn: "None \<notin> set (keys_of self)"
  shows "\<exists>self'. str_dict_adds self k v = Inr self' \<and>
           ascending (keys_of self') \<and> None \<notin> set (keys_of self')"
proof (cases k)
  case None
  then show ?thesis using asc nn by (simp add: str_dict_adds_def)
next
  case (Some s)
  obtain pos where pos: "ptr_dict_find_pos self k = Some pos" "0 \<le> pos" "pos \<le> int (length self)"
    and alt: "if pos < int (length self) \<and> str_equal (key (self ! nat pos)) k
      then \<forall>f. ascending (keys_of (self[nat pos := (self ! nat pos)\<lparr>val := f\<rparr>]))
      else \<forall>new. key new = str_dup k \<longrightarrow>
             (shift_up (self @ [new]) (nat pos) (length self))[nat pos := new]
               = take (nat pos) self @ [new] @ drop (nat pos) self \<and>
             ascending (keys_of (take (nat pos) self @ [new] @ drop (nat pos) self))"
    using upsert_cases[OF asc, of k] by blast
  let ?new = "\<lparr>key = str_dup k, val = v\<rparr>"
  let ?ins = "take (nat pos) self @ [?new] @ drop (nat pos) self"
  have unf: "str_dict_adds self k v =
      (if pos < int (length self) \<and> str_equal (key (self ! nat pos)) k
       then Inr (self[nat pos := (self ! nat pos)\<lparr>val := str_sets (val (self ! nat pos)) v\<rparr>])
       else Inr ((shift_up (self @ [?new]) (nat pos) (length self))[nat pos := ?new]))"
    using pos(1) Some
    by (simp add: str_dict_adds_def str_dict_find_pos_def Let_def)
  show ?thesis
  proof (cases "pos < int (length self) \<and> str_equal (key (self ! nat pos)) k")
    case True
    have "ascending (keys_of (self[nat pos := (self ! nat pos)\<lparr>val := str_sets (val (self ! nat pos)) v\<rparr>]))"
      using alt True by simp
    then show ?thesis
      unfolding unf using True nn by (simp add: keys_of_update_val)
  next
    case False
    have ins: "(shift_up (self @ [?new]) (nat pos) (length self))[nat pos := ?new] = ?ins"
      and asc': "ascending (keys_of ?ins)"
      using alt False by auto
    have "None \<notin> set (keys_of ?ins)"
      using nn Some by (auto simp: keys_of_def str_dup_def dest: in_set_takeD in_set_dropD)
    then show ?thesis
      unfolding unf ins using False asc' by auto
  qed
qed

lemma str_list_dict_dict_adds_ascending:
  assumes asc: "ascending (keys_of self)" and nn: "None \<notin> set (keys_of self)"
  shows "\<exists>self'. str_list_dict_dict_adds self k (Some d) = Inr self' \<and>
           ascending (keys_of self') \<and> None \<notin> set (keys_of self')"
proof (cases k)
  case None
  then show ?thesis using asc nn by (simp add: str_list_dict_dict_adds_def)
next
  case (Some s)
  obtain pos where pos: "ptr_dict_find_pos self k = Some pos" "0 \<le> pos" "pos \<le> int (length self)"
    and alt: "if pos < int (length self) \<and> str_equal (key (self ! nat pos)) k
      then \<forall>f. ascending (keys_of (self[nat pos := (self ! nat pos)\<lparr>val := f\<rparr>]))
      else \<forall>new. key new = str_dup k \<longrightarrow>
             (shift_up (self @ [new]) (nat pos) (length self))[nat pos := new]
               = take (nat pos) self @ [new] @ drop (nat pos) self \<and>
             ascending (keys_of (take (nat pos) self @ [new] @ drop (nat pos) self))"
    using upsert_cases[OF asc, of k] by blast
  let ?new = "\<lparr>key = str_dup k, val = d\<rparr>"
  let ?ins = "take (nat pos) self @ [?new] @ drop (nat pos) self"
  have unf: "str_list_dict_dict_adds self k (Some d) =
      (if pos < int (length self) \<and> str_equal (key (self ! nat pos)) k
       then Inr (self[nat pos := (self ! nat pos)\<lparr>val := str_list_dict_sets (val (self ! nat pos)) (Some d)\<rparr>])
       else Inr ((shift_up (self @ [?new]) (nat pos) (length self))[nat pos := ?new]))"
    using pos(1) Some
    by (simp add: str_list_dict_dict_adds_def str_list_dict_dict_find_pos_def ptr_list_dict_find_pos_eq Let_def)
  show ?thesis
  proof (cases "pos < int (length self) \<and> str_equal (key (self ! nat pos)) k")
    case True
    have "ascending (keys_of (self[nat pos := (self ! nat pos)\<lparr>val := str_list_dict_sets (val (self ! nat pos)) (Some d)\<rparr>]))"
      using alt True by simp
    then show ?thesis
      unfolding unf using True nn by (simp add: keys_of_update_val)
  next
    case False
    have ins: "(shift_up (self @ [?new]) (nat pos) (length self))[nat pos := ?new] = ?ins"
      and asc': "ascending (keys_of ?ins)"
      using alt False by auto
    have "None \<notin> set (keys_of ?ins)"
      using nn Some by (auto simp: keys_of_def str_dup_def dest: in_set_takeD in_set_dropD)
    then show ?thesis
      unfolding unf ins using False asc' by auto
  qed
qed


lemma find_pos_loop_range:
  "find_pos_loop dat k a c e = Some r \<Longrightarrow> 0 \<le> r \<and> r \<le> int (length dat)"
proof (erule find_pos_loop.raw_induct[rotated])
  fix f :: "'a dict_t \<Rightarrow> str_t \<Rightarrow> int \<Rightarrow> int \<Rightarrow> int \<Rightarrow> int option"
    and dat k a c e r
  assume "\<And>dat k a c e y. f dat k a c e = Some y \<Longrightarrow> 0 \<le> y \<and> y \<le> int (length dat)"
    and "(if c < 0 \<or> int (length dat) \<le> c then None
      else let comp = str_cmp k (key (dat ! nat c))
           in if comp = 0 then Some c
              else if comp < 0
                   then let b = a + (c - a) sdiv 2;
                            b = if b = c then b - 1 else b
                        in if b < a then Some c
                           else f dat k a b c
                   else let d = c + (e - c) sdiv 2;
                            d = if d = c then d + 1 else d
                        in if e \<le> d then Some (c + 1)
                           else f dat k c d e) = Some r"
  then show "0 \<le> r \<and> r \<le> int (length dat)"
    by (auto simp: Let_def split: if_splits)
qed

lemma ptr_dict_find_pos_range:
  "ptr_dict_find_pos self k = Some r \<Longrightarrow> 0 \<le> r \<and> r \<le> int (length self)"
  using find_pos_loop_range[of self k] by (auto simp: ptr_dict_find_pos_def split: if_splits)

lemma ptr_dict_adds_keys:
  assumes "ptr_dict_adds self k v = Inr self'"
  shows "set (keys_of self') \<subseteq> insert (str_dup k) (set (keys_of self))"
proof (cases k)
  case None
  then show ?thesis using assms by (auto simp: ptr_dict_adds_def)
next
  case (Some s)
  then obtain pos where pos: "ptr_dict_find_pos self k = Some pos"
    and self': "self' = map (\<lambda>i. self ! i) [0 ..< nat pos]
                 @ [\<lparr>key = str_dup k, val = v\<rparr>]
                 @ map (\<lambda>i. self ! i) [nat pos ..< length self]"
    using assms by (auto simp: ptr_dict_adds_def split: option.splits)
  have "nat pos \<le> length self"
    using ptr_dict_find_pos_range[OF pos] by linarith
  then show ?thesis
    unfolding self' by (auto simp: keys_of_def)
qed

text \<open>
  C6. In a \<open>str_list_dict_t\<close> with strictly ascending keys, \<open>str_list_dict_adds\<close> of a
  key that entry \<open>i\<close> already holds puts the elements of the incoming list, in their
  order, behind those of the list of entry \<open>i\<close> and changes nothing else; upserts of
  \<open>[a]\<close> and then \<open>[b]\<close> at one key of the empty dictionary leave the list \<open>[a, b]\<close>.
  In a \<open>str_list_dict_dict_t\<close> with strictly ascending keys, \<open>str_list_dict_dict_adds\<close>
  of a key that entry \<open>j\<close> already holds makes the incoming dictionary the value of
  entry \<open>j\<close>, whatever the value was before.
\<close>

theorem nested_upsert_merge:
  assumes "ascending (keys_of ld)" and "i < length ld" and "str_equal (key (ld ! i)) (Some s)"
    and "ascending (keys_of dd)" and "j < length dd" and "str_equal (key (dd ! j)) (Some t)"
  shows "str_list_dict_adds ld (Some s) (Some vs) = Inr (ld[i := (ld ! i)\<lparr>val := val (ld ! i) @ vs\<rparr>]) \<and>
         str_list_dict_add ld (Some s) (Some vs)
           = Inr (ld[i := (ld ! i)\<lparr>val := val (ld ! i) @ map str_dup vs\<rparr>]) \<and>
         str_list_dict_dict_adds dd (Some t) (Some sub) = Inr (dd[j := (dd ! j)\<lparr>val := sub\<rparr>]) \<and>
         str_list_dict_adds [] (Some s) (Some [a]) = Inr [\<lparr>key = Some (cstr s), val = [a]\<rparr>] \<and>
         str_list_dict_adds [\<lparr>key = Some (cstr s), val = [a]\<rparr>] (Some s) (Some [b])
           = Inr [\<lparr>key = Some (cstr s), val = [a, b]\<rparr>]"
proof -
  have a: "str_list_dict_adds ld (Some s) (Some vs) = Inr (ld[i := (ld ! i)\<lparr>val := val (ld ! i) @ vs\<rparr>])"
    using str_list_dict_adds_present[OF assms(1,2,3), of "Some vs"]
    by (simp add: str_list_adds_all_def)
  have b: "str_list_dict_add ld (Some s) (Some vs)
           = Inr (ld[i := (ld ! i)\<lparr>val := val (ld ! i) @ map str_dup vs\<rparr>])"
    using str_list_dict_adds_present[OF assms(1,2,3), of "Some (map str_dup vs)"]
    by (simp add: str_list_adds_all_def str_list_dict_add_def str_list_dup_def)
  have c: "str_list_dict_dict_adds dd (Some t) (Some sub) = Inr (dd[j := (dd ! j)\<lparr>val := sub\<rparr>])"
    using str_list_dict_dict_adds_present[OF assms(4,5,6), of "Some sub"]
    by (simp add: str_list_dict_sets_def)
  have d: "str_list_dict_adds [\<lparr>key = Some (cstr s), val = [a]\<rparr>] (Some s) (Some [b])
           = Inr [\<lparr>key = Some (cstr s), val = [a, b]\<rparr>]"
    using str_list_dict_adds_present[of "[\<lparr>key = Some (cstr s), val = [a]\<rparr>]" 0 s "Some [b]"]
    by (simp add: ascending_single str_equal_cstr str_list_adds_all_def)
  show ?thesis
    using a b c d by (simp add: str_list_dict_adds_empty)
qed

theorem nested_upsert_merge_witness:
  "ascending (keys_of [\<lparr>key = Some ''db'', val = [Some ''init'']\<rparr>, \<lparr>key = Some ''svc'', val = [Some ''start'']\<rparr>]) \<and>
   str_list_dict_adds [\<lparr>key = Some ''db'', val = [Some ''init'']\<rparr>, \<lparr>key = Some ''svc'', val = [Some ''start'']\<rparr>]
      (Some ''svc'') (Some [Some ''stop''])
     = Inr [\<lparr>key = Some ''db'', val = [Some ''init'']\<rparr>,
            \<lparr>key = Some ''svc'', val = [Some ''start'', Some ''stop'']\<rparr>] \<and>
   ascending (keys_of [\<lparr>key = Some ''u'', val = [\<lparr>key = Some ''x'', val = [Some ''1'']\<rparr>]\<rparr>]) \<and>
   str_list_dict_dict_adds [\<lparr>key = Some ''u'', val = [\<lparr>key = Some ''x'', val = [Some ''1'']\<rparr>]\<rparr>]
      (Some ''u'') (Some [\<lparr>key = Some ''y'', val = [Some ''2'']\<rparr>])
     = Inr [\<lparr>key = Some ''u'', val = [\<lparr>key = Some ''y'', val = [Some ''2'']\<rparr>]\<rparr>]"
proof -
  let ?ld = "[\<lparr>key = Some ''db'', val = [Some ''init'']\<rparr>, \<lparr>key = Some ''svc'', val = [Some ''start'']\<rparr>]"
  let ?dd = "[\<lparr>key = Some ''u'', val = [\<lparr>key = Some ''x'', val = [Some ''1'']\<rparr>]\<rparr>]"
  have h1: "ascending (keys_of ?ld)" by code_simp
  have h2: "(1::nat) < length ?ld" by simp
  have h3: "str_equal (key (?ld ! 1)) (Some ''svc'')" by code_simp
  have h4: "ascending (keys_of ?dd)" by code_simp
  have h5: "(0::nat) < length ?dd" by simp
  have h6: "str_equal (key (?dd ! 0)) (Some ''u'')" by code_simp
  show ?thesis
    using h1 h4 nested_upsert_merge[OF h1 h2 h3 h4 h5 h6,
        of "[Some ''stop'']" "[\<lparr>key = Some ''y'', val = [Some ''2'']\<rparr>]"]
    by simp
qed

text \<open>
  C10. Every upsert called with a \<open>NULL\<close> key returns the dictionary as it was. So a
  dictionary with strictly ascending keys, none of them \<open>NULL\<close>, stays one under
  \<open>str_dict_adds\<close>, \<open>str_list_dict_adds\<close> and \<open>str_list_dict_dict_adds\<close>, whatever the
  key, and \<open>ptr_dict_adds\<close> stores no \<open>NULL\<close> key either; the empty dictionary is such
  a dictionary.
\<close>

theorem upsert_absent_key_noop:
  "str_dict_adds sd None v = Inr sd \<and>
   str_dict_add sd None v = Inr sd \<and>
   str_list_dict_adds ld None lp = Inr ld \<and>
   str_list_dict_add ld None lp = Inr ld \<and>
   str_list_dict_dict_adds dd None dp = Inr dd \<and>
   str_list_dict_dict_add dd None dp = Inr dd \<and>
   ptr_dict_adds pd None pv = Inr pd \<and>
   ptr_dict_add qd None v = Inr qd \<and>
   (ascending (keys_of sd) \<and> None \<notin> set (keys_of sd) \<longrightarrow>
      (\<exists>sd'. str_dict_adds sd k v = Inr sd' \<and>
         ascending (keys_of sd') \<and> None \<notin> set (keys_of sd'))) \<and>
   (ascending (keys_of ld) \<and> None \<notin> set (keys_of ld) \<longrightarrow>
      (\<exists>ld'. str_list_dict_adds ld k (Some lv) = Inr ld' \<and>
         ascending (keys_of ld') \<and> None \<notin> set (keys_of ld'))) \<and>
   (ascending (keys_of dd) \<and> None \<notin> set (keys_of dd) \<longrightarrow>
      (\<exists>dd'. str_list_dict_dict_adds dd k (Some dv) = Inr dd' \<and>
         ascending (keys_of dd') \<and> None \<notin> set (keys_of dd'))) \<and>
   (None \<notin> set (keys_of pd) \<and> ptr_dict_adds pd k pv = Inr pd' \<longrightarrow>
      None \<notin> set (keys_of pd')) \<and>
   ascending (keys_of ([] :: str_dict_t)) \<and> None \<notin> set (keys_of ([] :: str_dict_t))"
proof -
  have "None \<notin> set (keys_of pd')"
    if "None \<notin> set (keys_of pd)" "ptr_dict_adds pd k pv = Inr pd'"
  proof (cases k)
    case None
    then show ?thesis using that by (simp add: ptr_dict_adds_def)
  next
    case (Some s)
    then show ?thesis
      using that ptr_dict_adds_keys[OF that(2)] by (auto simp: str_dup_def)
  qed
  then show ?thesis
    using str_dict_adds_ascending[of sd k v] str_list_dict_adds_ascending[of ld k lv]
      str_list_dict_dict_adds_ascending[of dd k dv]
    by (simp add: str_dict_adds_def str_dict_add_def str_list_dict_adds_def str_list_dict_add_def
        str_list_dict_dict_adds_def str_list_dict_dict_add_def ptr_dict_adds_def ptr_dict_add_def
        keys_of_def)
qed

theorem upsert_absent_key_noop_witness:
  "ascending (keys_of [\<lparr>key = Some ''b'', val = Some ''1''\<rparr>]) \<and>
   None \<notin> set (keys_of [\<lparr>key = Some ''b'', val = Some ''1''\<rparr>]) \<and>
   str_dict_adds [\<lparr>key = Some ''b'', val = Some ''1''\<rparr>] None (Some ''2'')
     = Inr [\<lparr>key = Some ''b'', val = Some ''1''\<rparr>] \<and>
   (\<exists>sd'. str_dict_adds [\<lparr>key = Some ''b'', val = Some ''1''\<rparr>] (Some ''a'') (Some ''2'') = Inr sd' \<and>
      ascending (keys_of sd') \<and> None \<notin> set (keys_of sd'))"
proof -
  let ?sd = "[\<lparr>key = Some ''b'', val = Some ''1''\<rparr>]"
  have h: "ascending (keys_of ?sd) \<and> None \<notin> set (keys_of ?sd)"
    by (simp add: keys_of_def)
  show ?thesis
    using h upsert_absent_key_noop[where sd = ?sd and v = "Some ''2''" and k = "Some ''a''"]
    by blast
qed

text \<open>
  C7. \<open>str_dict_del\<close> of a key that \<open>str_dict_find\<close> does not find returns the
  dictionary as it was. Of a key that is found it returns nothing: \<open>str_dict_sets(&old,
  self)\<close> has freed the dictionary object, and the next statement assigns
  \<open>self->size\<close>.
\<close>

theorem str_dict_del_frees_self:
  "str_dict_del (Live d) k =
     (case str_dict_find d k of
        None \<Rightarrow> Inl No_Return
      | Some pos \<Rightarrow> if 0 \<le> pos then Inl Use_After_Free else Inr (Live d)) \<and>
   str_dict_del (Live [\<lparr>key = Some ''a'', val = Some ''1''\<rparr>]) (Some ''a'') = Inl Use_After_Free \<and>
   str_dict_del (Live [\<lparr>key = Some ''a'', val = Some ''1''\<rparr>]) (Some ''b'')
     = Inr (Live [\<lparr>key = Some ''a'', val = Some ''1''\<rparr>])"
proof -
  have "str_dict_del (Live d) k =
     (case str_dict_find d k of
        None \<Rightarrow> Inl No_Return
      | Some pos \<Rightarrow> if 0 \<le> pos then Inl Use_After_Free else Inr (Live d))"
    by (simp add: str_dict_del_def str_dict_sets_def split: option.splits)
  moreover have "str_dict_del (Live [\<lparr>key = Some ''a'', val = Some ''1''\<rparr>]) (Some ''a'') = Inl Use_After_Free"
    by code_simp
  moreover have "str_dict_del (Live [\<lparr>key = Some ''a'', val = Some ''1''\<rparr>]) (Some ''b'')
     = Inr (Live [\<lparr>key = Some ''a'', val = Some ''1''\<rparr>])"
    by code_simp
  ultimately show ?thesis by blast
qed

text \<open>
  C1. Two runs from the empty dictionary after which no strictly ascending key sequence
  is stored: \<open>str_dict_adds\<close> of a key followed by \<open>str_dict_del\<close> of that key ends in
  the use of the freed dictionary, and two \<open>ptr_dict_adds\<close> of one key store that key
  twice.
\<close>

theorem sortedness_failing_runs:
  "str_dict_adds [] (Some ''k'') (Some ''v'') = Inr [\<lparr>key = Some ''k'', val = Some ''v''\<rparr>] \<and>
   str_dict_del (Live [\<lparr>key = Some ''k'', val = Some ''v''\<rparr>]) (Some ''k'') = Inl Use_After_Free \<and>
   ptr_dict_adds [] (Some ''k'') (Some (1::nat)) = Inr [\<lparr>key = Some ''k'', val = Some 1\<rparr>] \<and>
   ptr_dict_adds [\<lparr>key = Some ''k'', val = Some (1::nat)\<rparr>] (Some ''k'') (Some 2)
     = Inr [\<lparr>key = Some ''k'', val = Some 2\<rparr>, \<lparr>key = Some ''k'', val = Some 1\<rparr>] \<and>
   \<not> ascending (keys_of [\<lparr>key = Some ''k'', val = Some (2::nat)\<rparr>, \<lparr>key = Some ''k'', val = Some 1\<rparr>])"
  by code_simp

section \<open>Split and join\<close>

lemma skip_delim_eq:
  "x \<le> length t \<Longrightarrow>
   skip_delim t d x (length t) = x + length (takeWhile (\<lambda>c. c = d) (drop x t))"
proof (induction t d x "length t" rule: skip_delim.induct)
  case (1 t d x)
  show ?case
  proof (cases "x < length t")
    case True
    then have dr: "drop x t = t ! x # drop (Suc x) t"
      by (simp add: Cons_nth_drop_Suc)
    show ?thesis
      using True 1 by (subst skip_delim.simps) (simp add: dr)
  next
    case False
    then show ?thesis using 1 by (subst skip_delim.simps) simp
  qed
qed

lemma scan_token_eq:
  "x \<le> length t \<Longrightarrow>
   scan_token t d x (length t) = x + length (takeWhile (\<lambda>c. c \<noteq> d) (drop x t))"
proof (induction t d x "length t" rule: scan_token.induct)
  case (1 t d x)
  show ?case
  proof (cases "x < length t")
    case True
    then have dr: "drop x t = t ! x # drop (Suc x) t"
      by (simp add: Cons_nth_drop_Suc)
    show ?thesis
      using True 1 by (subst scan_token.simps) (simp add: dr)
  next
    case False
    then show ?thesis using 1 by (subst scan_token.simps) simp
  qed
qed

lemma tokens_skip: "tokens d (dropWhile (\<lambda>c. c = d) s) = tokens d s"
  by (induction s) auto

lemma tokens_run:
  assumes "s \<noteq> []" and "hd s \<noteq> d"
  shows "tokens d s = takeWhile (\<lambda>x. x \<noteq> d) s # tokens d (drop 1 (dropWhile (\<lambda>x. x \<noteq> d) s))"
proof (cases s)
  case Nil
  then show ?thesis using assms by simp
next
  case (Cons c cs)
  then have cd: "c \<noteq> d" using assms by simp
  have "tokens d (dropWhile (\<lambda>x. x \<noteq> d) cs) = tokens d (drop 1 (dropWhile (\<lambda>x. x \<noteq> d) cs))"
  proof (cases "dropWhile (\<lambda>x. x \<noteq> d) cs")
    case Nil
    show ?thesis unfolding Nil by simp
  next
    case (Cons e es)
    then have "e = d" using hd_dropWhile[of "\<lambda>x. x \<noteq> d" cs] by auto
    then show ?thesis using Cons by simp
  qed
  then show ?thesis using Cons cd by simp
qed

lemma str_cut_token:
  assumes nul: "NUL \<notin> set t" and "a < length t" and "a \<le> b" and "b \<le> length t"
  shows "str_cut (Some t) (int a) (int b) = Some (take (b - a) (drop a t))"
proof -
  have "str_cut (Some t) (int a) (int b) = Some (take (nat (min (int b) (int (length t)) - int a)) (drop (nat (int a)) t))"
    using assms str_cut_general[OF nul, of "int a" "int b"] by (simp add: Let_def)
  moreover have "nat (min (int b) (int (length t)) - int a) = b - a"
    using assms by (simp add: min_def)
  ultimately show ?thesis by simp
qed

lemma split_loop_spec:
  "NUL \<notin> set t \<Longrightarrow>
   split_loop t d x (length t) res = res @ map Some (tokens d (drop x t))"
proof (induction t d x "length t" res rule: split_loop.induct)
  case (1 t d x res)
  note nul = "1.prems"
  let ?n = "length t"
  show ?case
  proof (cases "x < ?n")
    case False
    then show ?thesis by (subst split_loop.simps) simp
  next
    case True
    define x1 where "x1 = skip_delim t d x ?n"
    have x1: "x1 = x + length (takeWhile (\<lambda>c. c = d) (drop x t))"
      using True by (simp add: x1_def skip_delim_eq)
    have dx1: "drop x1 t = dropWhile (\<lambda>c. c = d) (drop x t)"
      unfolding x1 by (metis add.commute drop_drop dropWhile_eq_drop)
    have x1n: "x1 \<le> ?n"
      unfolding x1 using True length_takeWhile_le[of "\<lambda>c. c = d" "drop x t"] by simp
    have tk: "tokens d (drop x t) = tokens d (drop x1 t)"
      by (simp add: dx1 tokens_skip)
    show ?thesis
    proof (cases "x1 = ?n")
      case True
      then have "tokens d (drop x t) = []" using tk by simp
      moreover have "split_loop t d x ?n res = res"
        using \<open>x < ?n\<close> True by (subst split_loop.simps) (simp add: x1_def Let_def)
      ultimately show ?thesis by simp
    next
      case False
      define x2 where "x2 = scan_token t d x1 ?n"
      have x2: "x2 = x1 + length (takeWhile (\<lambda>c. c \<noteq> d) (drop x1 t))"
        using x1n by (simp add: x2_def scan_token_eq)
      have x2n: "x2 \<le> ?n"
        unfolding x2 using x1n length_takeWhile_le[of "\<lambda>c. c \<noteq> d" "drop x1 t"] by simp
      have dx2: "drop x2 t = dropWhile (\<lambda>c. c \<noteq> d) (drop x1 t)"
        unfolding x2 by (metis add.commute drop_drop dropWhile_eq_drop)
      have ne: "drop x1 t \<noteq> []" using False x1n by simp
      have hd: "hd (drop x1 t) \<noteq> d"
        using ne hd_dropWhile[of "\<lambda>c. c = d" "drop x t"] by (simp add: dx1)
      have cut: "str_cut (Some t) (int x1) (int x2) = Some (takeWhile (\<lambda>c. c \<noteq> d) (drop x1 t))"
      proof -
        have "str_cut (Some t) (int x1) (int x2) = Some (take (x2 - x1) (drop x1 t))"
          using nul False x1n x2n x2 by (intro str_cut_token) auto
        then show ?thesis
          unfolding x2 by (simp add: takeWhile_eq_take[symmetric])
      qed
      have step: "split_loop t d x ?n res =
          split_loop t d (x2 + 1) ?n (str_list_adds res (str_cut (Some t) (int x1) (int x2)))"
        using \<open>x < ?n\<close> False by (subst split_loop.simps) (simp add: x1_def x2_def Let_def)
      have "split_loop t d (x2 + 1) ?n (str_list_adds res (str_cut (Some t) (int x1) (int x2)))
          = str_list_adds res (str_cut (Some t) (int x1) (int x2)) @ map Some (tokens d (drop (x2 + 1) t))"
        by (rule "1.hyps"[OF \<open>x < ?n\<close> x1_def False refl x2_def nul])
      moreover have "tokens d (drop x1 t) =
          takeWhile (\<lambda>c. c \<noteq> d) (drop x1 t) # tokens d (drop (x2 + 1) t)"
        using tokens_run[OF ne hd] by (simp add: dx2[symmetric])
      ultimately show ?thesis
        using step cut tk by (simp add: str_list_adds_def)
    qed
  qed
qed

lemma flat_simps [simp]:
  "flat [] = []" "flat (None # es) = flat es" "flat (Some s # es) = cstr s @ flat es"
  "flat (xs @ ys) = flat xs @ flat ys"
  by (simp_all add: flat_def)

lemma len_flat: "sum_list (map (\<lambda>e. nat (str_len e)) es) = length (flat es)"
  by (induction es) (auto simp: str_len_def strlen_def flat_def split: option.splits)

lemma NUL_cstr: "NUL \<notin> set (cstr s)"
  unfolding cstr_def by (induction s) auto

lemma NUL_flat: "NUL \<notin> set (flat es)"
  by (induction es) (auto simp: flat_def NUL_cstr split: option.splits)

lemma copy_loop_written:
  "p + length (flat es) + 1 \<le> length b \<Longrightarrow>
   copy_loop b p es =
     (if \<forall>e \<in> set es. e = None then b
      else take p b @ map Some (flat es) @ [Some NUL] @ drop (p + length (flat es) + 1) b)"
proof (induction es arbitrary: b p)
  case Nil
  then show ?case by simp
next
  case (Cons e es)
  show ?case
  proof (cases e)
    case None
    then show ?thesis
      using Cons.IH[of p b] Cons.prems by (auto simp: str_cpy_def str_len_def)
  next
    case (Some s)
    let ?b = "take p b @ map Some (cstr s @ [NUL]) @ drop (p + length (cstr s) + 1) b"
    let ?p = "p + length (cstr s)"
    have lb: "length ?b = length b" using Cons.prems Some by simp
    have step: "copy_loop b p (e # es) = copy_loop ?b ?p es"
      using Some by (simp add: str_cpy_def strcpy_def str_len_def strlen_def Let_def)
    have IH: "copy_loop ?b ?p es =
     (if \<forall>e \<in> set es. e = None then ?b
      else take ?p ?b @ map Some (flat es) @ [Some NUL] @ drop (?p + length (flat es) + 1) ?b)"
      using Cons.prems Some lb by (intro Cons.IH) simp
    have fl: "(\<forall>e \<in> set es. e = None) \<Longrightarrow> flat es = []"
      by (induction es) auto
    have tk: "take ?p ?b = take p b @ map Some (cstr s)"
      using Cons.prems Some by simp
    have dr: "drop (?p + length (flat es) + 1) ?b = drop (p + length (cstr s) + length (flat es) + 1) b"
      if "\<not> (\<forall>e \<in> set es. e = None)"
      using Cons.prems Some by (simp add: add.commute add.left_commute)
    show ?thesis
    proof (cases "\<forall>e \<in> set es. e = None")
      case True
      then show ?thesis unfolding step IH using Some fl by simp
    next
      case False
      then show ?thesis unfolding step IH using Some tk dr by (auto simp: add.assoc)
    qed
  qed
qed

lemma read_str_written: "NUL \<notin> set w \<Longrightarrow> read_str (map Some w @ Some NUL # r) = Inr w"
  by (induction w) auto

lemma str_copy_str_list_flat:
  assumes "\<exists>e \<in> set es. e \<noteq> None"
  shows "str_copy_str_list es = Inr (Some (flat es))"
proof -
  have "copy_loop (malloc (length (flat es) + 1)) 0 es =
      map Some (flat es) @ Some NUL # drop (length (flat es) + 1) (malloc (length (flat es) + 1))"
    using assms copy_loop_written[of 0 es "malloc (length (flat es) + 1)"]
    by (auto simp: malloc_def)
  then show ?thesis
    by (simp add: str_copy_str_list_def len_flat Let_def read_str_written NUL_flat)
qed

lemma join_loop_present:
  "set (join_loop (map Some ts) (Some dl) acc) \<subseteq> set acc \<union> range Some"
proof (induction ts arbitrary: acc)
  case Nil
  then show ?case by simp
next
  case (Cons t ts)
  let ?acc = "(if acc \<noteq> [] then acc @ [str_dup (Some dl)] else acc) @ [str_dup (Some t)]"
  have "set (join_loop (map Some ts) (Some dl) ?acc) \<subseteq> set ?acc \<union> range Some"
    by (rule Cons.IH)
  moreover have "set ?acc \<subseteq> set acc \<union> range Some"
    by (auto simp: str_dup_def)
  ultimately have "set (join_loop (map Some ts) (Some dl) ?acc) \<subseteq> set acc \<union> range Some"
    by blast
  then show ?case by simp
qed

lemma join_loop_length: "length acc \<le> length (join_loop es dl acc)"
proof (induction es arbitrary: acc)
  case Nil
  then show ?case by simp
next
  case (Cons e es)
  show ?case
    using Cons.IH[of acc]
      Cons.IH[of "(if acc \<noteq> [] then acc @ [str_dup dl] else acc) @ [str_dup e]"]
    by (auto split: if_splits)
qed

lemma join_loop_nonempty: "ts \<noteq> [] \<Longrightarrow> join_loop (map Some ts) (Some dl) [] \<noteq> []"
proof (cases ts)
  case Nil
  assume "ts \<noteq> []"
  then show ?thesis using Nil by simp
next
  case (Cons t us)
  then show ?thesis
    using join_loop_length[of "[str_dup (Some t)]" "map Some us" "Some dl"] by auto
qed

lemma flat_join_loop:
  "flat (join_loop (map Some ts) (Some dl) acc) =
     flat acc @ (if acc = [] then intercalate (cstr dl) (map cstr ts)
                 else concat (map (\<lambda>t. cstr dl @ cstr t) ts))"
proof (induction ts arbitrary: acc)
  case Nil
  then show ?case by simp
next
  case (Cons t ts)
  have ic: "intercalate dl' (x # xs) = x @ concat (map (\<lambda>t. dl' @ t) xs)" for dl' x xs
    by (induction xs arbitrary: x) auto
  show ?case
    using Cons.IH by (simp add: str_dup_def cstr_idem ic comp_def)
qed

lemma no_double_tl: "no_double d (x # xs) \<Longrightarrow> no_double d xs"
  by (cases xs) auto

lemma no_double_dropWhile: "no_double d s \<Longrightarrow> no_double d (dropWhile P s)"
  by (induction s) (auto dest: no_double_tl)

lemma tokens_subset: "t \<in> set (tokens d s) \<Longrightarrow> set t \<subseteq> set s"
proof (induction d s rule: tokens.induct)
  case (1 d)
  then show ?case by simp
next
  case (2 d c cs)
  show ?case
  proof (cases "c = d")
    case True
    then show ?thesis using 2 by auto
  next
    case False
    then have "t = c # takeWhile (\<lambda>x. x \<noteq> d) cs \<or> t \<in> set (tokens d (dropWhile (\<lambda>x. x \<noteq> d) cs))"
      using "2.prems" by simp
    then show ?thesis
    proof
      assume "t = c # takeWhile (\<lambda>x. x \<noteq> d) cs"
      then show ?thesis by (auto dest: set_takeWhileD)
    next
      assume "t \<in> set (tokens d (dropWhile (\<lambda>x. x \<noteq> d) cs))"
      then have "set t \<subseteq> set (dropWhile (\<lambda>x. x \<noteq> d) cs)"
        using "2.IH"(2)[OF False] by simp
      then show ?thesis using set_dropWhileD by fastforce
    qed
  qed
qed

lemma tokens_no_delim:
  assumes "s \<noteq> []" and "d \<notin> set s"
  shows "tokens d s = [s]"
proof -
  obtain c cs where s: "s = c # cs" using assms(1) by (cases s) auto
  have "\<forall>x \<in> set cs. x \<noteq> d" using assms(2) s by auto
  then have "dropWhile (\<lambda>x. x \<noteq> d) cs = []" "takeWhile (\<lambda>x. x \<noteq> d) cs = cs"
    by simp_all
  moreover have "c \<noteq> d" using assms(2) s by auto
  ultimately have "tokens d (c # cs) = [c # cs]"
    by (simp del: dropWhile_eq_Nil_conv takeWhile_eq_all_conv)
  then show ?thesis using s by simp
qed

lemma intercalate_tokens:
  "s \<noteq> [] \<Longrightarrow> hd s \<noteq> d \<Longrightarrow> last s \<noteq> d \<Longrightarrow> no_double d s \<Longrightarrow>
   tokens d s \<noteq> [] \<and> intercalate [d] (tokens d s) = s"
proof (induction "length s" arbitrary: s rule: less_induct)
  case less
  obtain c cs where s: "s = c # cs" using less.prems(1) by (cases s) auto
  have cd: "c \<noteq> d" using less.prems(2) s by simp
  let ?run = "c # takeWhile (\<lambda>x. x \<noteq> d) cs"
  let ?rest = "dropWhile (\<lambda>x. x \<noteq> d) cs"
  have tk: "tokens d s = ?run # tokens d ?rest" using s cd by simp
  have split: "s = ?run @ ?rest" using s by simp
  show ?case
  proof (cases ?rest)
    case Nil
    have "tokens d s = [?run]" unfolding tk Nil by simp
    moreover have "s = ?run" using split unfolding Nil by simp
    ultimately show ?thesis by simp
  next
    case (Cons e r)
    then have ed: "e = d" using hd_dropWhile[of "\<lambda>x. x \<noteq> d" cs] by auto
    have rne: "r \<noteq> []"
    proof
      assume "r = []"
      then have "last s = d" using split Cons ed by (metis last_snoc)
      then show False using less.prems(3) by simp
    qed
    have nd: "no_double d ?rest"
      using less.prems(4) s by (auto dest: no_double_tl intro: no_double_dropWhile)
    have hr: "hd r \<noteq> d" using nd Cons ed rne by (cases r) auto
    have lr: "last r \<noteq> d"
    proof -
      have "last s = last r" using split Cons rne by (metis last_appendR last_ConsR list.distinct(1))
      then show ?thesis using less.prems(3) by simp
    qed
    have ndr: "no_double d r" using nd Cons by (auto dest: no_double_tl)
    have "length r < length s"
      using split Cons by (metis length_append length_Cons trans_less_add2 lessI)
    then have IH: "tokens d r \<noteq> [] \<and> intercalate [d] (tokens d r) = r"
      using less.hyps[of r] rne hr lr ndr by blast
    then obtain u us where us: "tokens d r = u # us" by (cases "tokens d r") auto
    have "tokens d ?rest = tokens d r" using Cons ed by simp
    then have "intercalate [d] (tokens d s) = ?run @ [d] @ intercalate [d] (tokens d r)"
      using tk us by simp
    also have "\<dots> = ?run @ ?rest" using IH Cons ed by simp
    finally show ?thesis using tk split by simp
  qed
qed

lemma str_split_tokens:
  assumes "NUL \<notin> set s"
  shows "str_split (Some s) d = map Some (tokens d s)"
proof -
  have "nat (str_len (Some s)) = length s"
    using assms by (simp add: str_len_def strlen_def cstr_id)
  then show ?thesis
    using split_loop_spec[OF assms, of d 0 "[]"] by (simp add: str_split_def)
qed

lemma str_list_join_tokens:
  assumes "ts \<noteq> []" and "\<forall>t \<in> set ts. NUL \<notin> set t"
  shows "str_list_join (map Some ts) (Some dl) = Inr (Some (intercalate (cstr dl) ts))"
proof -
  let ?j = "join_loop (map Some ts) (Some dl) []"
  have "?j \<noteq> []" using assms(1) by (rule join_loop_nonempty)
  then obtain e where "e \<in> set ?j" by (cases ?j) auto
  moreover have "set ?j \<subseteq> range Some" using join_loop_present[of ts dl "[]"] by simp
  ultimately have "\<exists>e \<in> set ?j. e \<noteq> None" by blast
  then have "str_copy_str_list ?j = Inr (Some (flat ?j))"
    by (rule str_copy_str_list_flat)
  moreover have "map cstr ts = ts"
    using assms(2) by (simp add: map_idI cstr_id)
  ultimately show ?thesis
    by (simp add: str_list_join_def flat_join_loop)
qed

lemma join_split_roundtrip:
  assumes nul: "NUL \<notin> set s" and ne: "s \<noteq> []"
    and clean: "hd s \<noteq> d" "last s \<noteq> d" "no_double d s"
  shows "str_list_join (str_split (Some s) d) (Some [d]) = Inr (Some s)"
proof -
  have tn: "\<forall>t \<in> set (tokens d s). NUL \<notin> set t"
    using nul tokens_subset by blast
  have t: "tokens d s \<noteq> []" "intercalate [d] (tokens d s) = s"
    using intercalate_tokens[OF ne clean] by simp_all
  have j: "str_list_join (str_split (Some s) d) (Some [d]) = Inr (Some (intercalate (cstr [d]) (tokens d s)))"
    using str_list_join_tokens[OF t(1) tn] by (simp add: str_split_tokens[OF nul])
  show ?thesis
  proof (cases "d = NUL")
    case True
    then have "tokens d s = [s]" using nul ne by (simp add: tokens_no_delim)
    then show ?thesis using j by simp
  next
    case False
    then have "cstr [d] = [d]" by (simp add: cstr_def)
    then show ?thesis using j t(2) by simp
  qed
qed

text \<open>
  C8. \<open>str_split\<close> of the empty string is the empty list, and \<open>str_list_join\<close> of the
  empty list returns a buffer of one byte in which nothing, no closing NUL either, was
  written.
\<close>

theorem join_split_empty_string:
  "str_split (Some []) d = [] \<and>
   str_list_join [] delim = Inl Uninitialized_Read \<and>
   str_list_join (str_split (Some []) (CHR '','')) (Some '','') = Inl Uninitialized_Read"
  by (simp add: str_split_def str_len_def strlen_def cstr_def split_loop.simps
      str_list_join_def str_copy_str_list_def malloc_def)

end
